theory Spec2Isabelle
  imports Main "HOL-Library.Word"
begin

unbundle bit_operations_syntax

section \<open>Data model of the serial session (SerialReader/runner.cpp)\<close>

text \<open>
  A \<open>char\<close> of the source is a byte. The twelve marker bytes and \<open>FLUSH_INTERVAL\<close> are
  macros of a header that is not part of the sources at hand, so they are parameters.
\<close>

type_synonym byte = "8 word"

record macros =
  START_1 :: byte
  START_2 :: byte
  END_1 :: byte
  END_2 :: byte
  LOADED_1 :: byte
  LOADED_2 :: byte
  ASK_INPUT_1 :: byte
  ASK_INPUT_2 :: byte
  FINISHED_1 :: byte
  FINISHED_2 :: byte
  PANIC_1 :: byte
  PANIC_2 :: byte
  FLUSH_INTERVAL :: int

text \<open>The getters of \<open>Parser\<close> that \<open>run\<close>, \<open>reset\<close> and \<open>loop\<close> call.\<close>

record parser =
  getMaxMeasures :: int
  getParams :: "byte list list"
  getUSBPort :: int
  getUSBSleepTime :: int

text \<open>
  What the program does to the hardware, in order: \<open>digitalWrite\<close>, the two kinds of
  \<open>sleep_for\<close>, \<open>serialPuts\<close> and \<open>serialFlush\<close>.
\<close>

datatype hw_event =
  DigitalWrite int bool
  | SleepSec int
  | SleepMs int
  | SerialPuts "byte list"
  | SerialFlush

text \<open>
  \<open>pufOutput\<close> is a \<open>std::ostream\<close>: either a \<open>std::ofstream\<close> (the
  \<open>dynamic_cast\<close> succeeds, \<open>close\<close> is called, and a closed file stream drops what
  is written to it) or a \<open>std::ostringstream\<close>, which is never closed.
\<close>

record sink =
  content :: "byte list"
  is_file :: bool
  is_open :: bool
  flushes :: nat

definition accepts :: "sink \<Rightarrow> bool" where
  "accepts k = (\<not> is_file k \<or> is_open k)"

definition sink_put :: "sink \<Rightarrow> byte \<Rightarrow> sink" where
  "sink_put k b = (if accepts k then k\<lparr>content := content k @ [b]\<rparr> else k)"

definition sink_flush :: "sink \<Rightarrow> sink" where
  "sink_flush k = k\<lparr>flushes := Suc (flushes k)\<rparr>"

definition sink_close :: "sink \<Rightarrow> sink" where
  "sink_close k = (if is_file k then k\<lparr>is_open := False\<rparr> else k)"

definition new_file :: sink where
  "new_file = \<lparr>content = [], is_file = True, is_open = True, flushes = 0\<rparr>"

definition new_ostringstream :: sink where
  "new_ostringstream = \<lparr>content = [], is_file = False, is_open = True, flushes = 0\<rparr>"

text \<open>
  An injector thread is the list of parameters it has still to send; the empty list is
  a thread whose body has returned. \<open>input\<close> is the pointer of \<open>loop\<close>; a thread
  whose pointer was overwritten by a later LOADED keeps running and is kept in
  \<open>leaked\<close>. The counters \<open>count\<close> and \<open>charCount\<close> are \<open>int\<close> in the source and
  integers here: a pass would have to count 2 to the 31 bytes before they differ. The
  thread that forwards what the operator types exists only when \<open>USER_INPUT\<close> is
  defined and is left out.
\<close>

type_synonym thread = "byte list list"

record state =
  lastChar :: byte
  writePuf :: bool
  interrupt :: bool
  charCount :: int
  input :: "thread option"
  leaked :: "thread list"
  running :: bool
  count :: int
  pufOutput :: sink
  expectInput :: bool
  trace :: "hw_event list"

datatype marker = START | END | LOADED | ASK_INPUT | FINISHED | PANIC

datatype hang = ReadBlocked | JoinBlocked

section \<open>The injector thread (the lambda of lines 165 to 180)\<close>

text \<open>\<open>serialPuts\<close> sends a C string: the bytes up to the first NUL.\<close>

definition c_str :: "byte list \<Rightarrow> byte list" where
  "c_str p = takeWhile (\<lambda>c. c \<noteq> 0) p"

definition send_param :: "byte list \<Rightarrow> hw_event list" where
  "send_param param =
     [SleepMs 50, SerialPuts (c_str param), SerialFlush,
      SleepMs 50, SerialPuts [13], SerialFlush]"

fun tx_bytes :: "hw_event list \<Rightarrow> byte list" where
  "tx_bytes [] = []"
| "tx_bytes (SerialPuts bs # es) = bs @ tx_bytes es"
| "tx_bytes (e # es) = tx_bytes es"

text \<open>
  One turn of a thread: it passes the poll when \<open>expectInput\<close> is set (the loop
  condition is tested before \<open>interrupt\<close>), clears the signal and sends its next
  parameter; otherwise it returns when \<open>interrupt\<close> is set, and otherwise keeps polling.
\<close>

fun thread_turn :: "state \<Rightarrow> thread \<Rightarrow> state \<times> thread" where
  "thread_turn s [] = (s, [])"
| "thread_turn s (param # ps) =
     (if expectInput s
      then (s\<lparr>expectInput := False, trace := trace s @ send_param param\<rparr>, ps)
      else if interrupt s then (s, []) else (s, param # ps))"

text \<open>
  \<open>input->join()\<close>: the scanner waits until the thread has returned. While it waits
  nobody sets \<open>expectInput\<close>, so a thread that polls with \<open>interrupt\<close> clear never
  returns and the scanner hangs (\<open>None\<close>).
\<close>

fun run_thread :: "thread \<Rightarrow> state \<Rightarrow> state option" where
  "run_thread [] s = Some s"
| "run_thread (param # ps) s =
     (if expectInput s
      then run_thread ps (s\<lparr>expectInput := False, trace := trace s @ send_param param\<rparr>)
      else if interrupt s then Some s else None)"

definition join_input :: "state \<Rightarrow> hang + state" where
  "join_input s =
     (case input s of
        None \<Rightarrow> Inr s
      | Some th \<Rightarrow>
          (case run_thread th s of
             None \<Rightarrow> Inl JoinBlocked
           | Some s' \<Rightarrow> Inr (s'\<lparr>input := None\<rparr>)))"

section \<open>One iteration of the scanner (lines 136 to 212)\<close>

text \<open>The guards of the if/else chain, in the order of the source.\<close>

definition marker_at :: "macros \<Rightarrow> byte \<Rightarrow> byte \<Rightarrow> marker option" where
  "marker_at m l c =
     (if START_1 m = l \<and> START_2 m = c then Some START
      else if END_1 m = l \<and> END_2 m = c then Some END
      else if LOADED_1 m = l \<and> LOADED_2 m = c then Some LOADED
      else if ASK_INPUT_1 m = l \<and> ASK_INPUT_2 m = c then Some ASK_INPUT
      else if FINISHED_1 m = l \<and> FINISHED_2 m = c then Some FINISHED
      else if PANIC_1 m = l \<and> PANIC_2 m = c then Some PANIC
      else None)"

definition close_output :: "state \<Rightarrow> state" where
  "close_output s = s\<lparr>pufOutput := sink_close (sink_flush (pufOutput s))\<rparr>"

text \<open>The branches of the chain. The calls that only log are left out.\<close>

definition on_marker :: "parser \<Rightarrow> marker option \<Rightarrow> state \<Rightarrow> hang + state" where
  "on_marker p ev s =
     (case ev of
        Some START \<Rightarrow> join_input (s\<lparr>writePuf := True\<rparr>)
      | Some END \<Rightarrow>
          (let s1 = close_output (s\<lparr>count := count s + 1, writePuf := False\<rparr>)
           in Inr (if getMaxMeasures p > 0 \<and> count s1 \<ge> getMaxMeasures p
                   then s1\<lparr>running := False\<rparr> else s1))
      | Some LOADED \<Rightarrow>
          Inr (s\<lparr>input := Some (getParams p),
                 leaked := (case input s of None \<Rightarrow> leaked s | Some th \<Rightarrow> leaked s @ [th])\<rparr>)
      | Some ASK_INPUT \<Rightarrow> Inr (s\<lparr>expectInput := True\<rparr>)
      | Some FINISHED \<Rightarrow> join_input (s\<lparr>interrupt := True\<rparr>)
      | Some PANIC \<Rightarrow>
          (case join_input (s\<lparr>interrupt := True\<rparr>) of
             Inl h \<Rightarrow> Inl h
           | Inr s1 \<Rightarrow> Inr (close_output s1))
      | None \<Rightarrow> Inr s)"

text \<open>Lines 202 to 212: the deferred write, \<open>lastChar = in\<close> and the byte counter.\<close>

definition after_marker :: "macros \<Rightarrow> byte \<Rightarrow> state \<Rightarrow> state" where
  "after_marker m c s =
     (let s1 = (if writePuf s \<and> charCount s > 1
                then s\<lparr>pufOutput := sink_put (pufOutput s) (lastChar s)\<rparr> else s);
          s2 = s1\<lparr>lastChar := c\<rparr>
      in if writePuf s2
         then (let s3 = s2\<lparr>charCount := charCount s2 + 1\<rparr>
               in if charCount s3 mod FLUSH_INTERVAL m = 0
                  then s3\<lparr>pufOutput := sink_flush (pufOutput s3)\<rparr> else s3)
         else s2)"

definition step :: "macros \<Rightarrow> parser \<Rightarrow> state \<Rightarrow> byte \<Rightarrow> hang + state" where
  "step m p s c =
     (case on_marker p (marker_at m (lastChar s) c) s of
        Inl h \<Rightarrow> Inl h
      | Inr s1 \<Rightarrow> Inr (after_marker m c s1))"

section \<open>The scanner pass (\<open>Runner::loop\<close>)\<close>

text \<open>
  The scanner and the injector threads run concurrently. An execution is given as the
  sequence of its atomic turns: \<open>Rx c\<close>, the scanner handles the byte \<open>c\<close>;
  \<open>Inj 0\<close>, the thread behind \<open>input\<close> takes a turn; \<open>Inj (Suc k)\<close>, the leaked
  thread number \<open>k\<close> takes one. A \<open>read\<close> returns a chunk of such turns (its bytes,
  and the places where a thread was scheduled); a result of at most 0 is the empty chunk.
\<close>

datatype tick = Rx byte | Inj nat

definition inj_turn :: "nat \<Rightarrow> state \<Rightarrow> state" where
  "inj_turn k s =
     (case k of
        0 \<Rightarrow> (case input s of
                None \<Rightarrow> s
              | Some th \<Rightarrow> (let (s', th') = thread_turn s th in s'\<lparr>input := Some th'\<rparr>))
      | Suc j \<Rightarrow>
          (if j < length (leaked s)
           then (let (s', th') = thread_turn s (leaked s ! j)
                 in s'\<lparr>leaked := (leaked s)[j := th']\<rparr>)
           else s))"

definition do_tick :: "macros \<Rightarrow> parser \<Rightarrow> state \<Rightarrow> tick \<Rightarrow> hang + state" where
  "do_tick m p s t = (case t of Rx c \<Rightarrow> step m p s c | Inj k \<Rightarrow> Inr (inj_turn k s))"

text \<open>The bytes of one chunk; the loop is left as soon as \<open>interrupt\<close> is set.\<close>

fun loop_chunk :: "macros \<Rightarrow> parser \<Rightarrow> state \<Rightarrow> tick list \<Rightarrow> hang + state" where
  "loop_chunk m p s [] = Inr s"
| "loop_chunk m p s (t # ts) =
     (if interrupt s then Inr s
      else (case do_tick m p s t of
              Inl h \<Rightarrow> Inl h
            | Inr s' \<Rightarrow> loop_chunk m p s' ts))"

text \<open>
  The chunks of successive reads. When the stream ends before FINISHED or PANIC the
  scanner waits in \<open>read\<close> for ever. What is left of the chunk in which the pass
  ended is lost with \<open>readBuf\<close>. A chunk holds at most \<open>BUFFER_SIZE\<close> bytes, a macro
  of the missing header; nothing here depends on how the stream is cut into chunks
  except that loss.
\<close>

fun loop_chunks ::
  "macros \<Rightarrow> parser \<Rightarrow> state \<Rightarrow> tick list list \<Rightarrow> hang + (state \<times> tick list list)" where
  "loop_chunks m p s [] = Inl ReadBlocked"
| "loop_chunks m p s (ch # chs) =
     (case loop_chunk m p s ch of
        Inl h \<Rightarrow> Inl h
      | Inr s' \<Rightarrow> if interrupt s' then Inr (s', chs) else loop_chunks m p s' chs)"

text \<open>
  The locals of \<open>loop\<close> at its entry; \<open>count\<close> and \<open>pufOutput\<close> are its reference
  parameters, \<open>expectInput\<close> is a member of the runner and the trace is the hardware's.
\<close>

definition loop_entry :: "bool \<Rightarrow> hw_event list \<Rightarrow> sink \<Rightarrow> int \<Rightarrow> state" where
  "loop_entry e tr out cnt =
     \<lparr>lastChar = 32, writePuf = False, interrupt = False, charCount = 0,
      input = None, leaked = [], running = True, count = cnt, pufOutput = out,
      expectInput = e, trace = tr\<rparr>"

text \<open>
  The marker events the scanner handles while it runs over a chunk, in order. It is used
  to state properties only; it follows the control of \<open>loop_chunk\<close>.
\<close>

fun fired :: "macros \<Rightarrow> parser \<Rightarrow> state \<Rightarrow> tick list \<Rightarrow> marker list" where
  "fired m p s [] = []"
| "fired m p s (t # ts) =
     (if interrupt s then []
      else (case t of
              Rx c \<Rightarrow> (case marker_at m (lastChar s) c of None \<Rightarrow> [] | Some ev \<Rightarrow> [ev])
            | Inj k \<Rightarrow> [])
           @ (case do_tick m p s t of Inl h \<Rightarrow> [] | Inr s' \<Rightarrow> fired m p s' ts))"

definition capture_of :: "hang + state \<Rightarrow> byte list option" where
  "capture_of r = (case r of Inl h \<Rightarrow> None | Inr s \<Rightarrow> Some (content (pufOutput s)))"

section \<open>The driver loops (\<open>SerialReader::run\<close>, both overloads)\<close>

text \<open>What outlives a pass: the member \<open>expectInput\<close> and the hardware.\<close>

record runner =
  r_expectInput :: bool
  r_trace :: "hw_event list"

definition reset :: "parser \<Rightarrow> runner \<Rightarrow> runner" where
  "reset p r =
     r\<lparr>r_trace := r_trace r @
        [DigitalWrite (getUSBPort p) True, SleepSec (getUSBSleepTime p),
         DigitalWrite (getUSBPort p) False]\<rparr>"

text \<open>
  \<open>loop\<close> returns \<open>running\<close>; \<open>pufOutput\<close> and \<open>count\<close> are updated through the
  references. A thread that is still polling when the pass returns would read the dead
  local \<open>interrupt\<close>; what it does from then on is undefined and is not followed.
\<close>

definition loop ::
  "macros \<Rightarrow> parser \<Rightarrow> runner \<Rightarrow> sink \<Rightarrow> int \<Rightarrow> tick list list \<Rightarrow>
   hang + (bool \<times> runner \<times> sink \<times> int \<times> tick list list)" where
  "loop m p r out cnt chs =
     (case loop_chunks m p (loop_entry (r_expectInput r) (r_trace r) out cnt) chs of
        Inl h \<Rightarrow> Inl h
      | Inr (s, rest) \<Rightarrow>
          Inr (running s, \<lparr>r_expectInput = expectInput s, r_trace = trace s\<rparr>,
               pufOutput s, count s, rest))"

lemma loop_chunks_shorter:
  "loop_chunks m p s chs = Inr (s', rest) \<Longrightarrow> length rest < length chs"
proof (induction chs arbitrary: s)
  case Nil
  then show ?case by simp
next
  case (Cons ch chs)
  from Cons.prems obtain s1 where s1: "loop_chunk m p s ch = Inr s1"
    by (auto split: sum.splits)
  show ?case
  proof (cases "interrupt s1")
    case True
    with Cons.prems s1 show ?thesis by simp
  next
    case False
    with Cons.prems s1 have "loop_chunks m p s1 chs = Inr (s', rest)" by simp
    from Cons.IH [OF this] show ?thesis by simp
  qed
qed

lemma loop_shorter:
  "loop m p r out cnt chs = Inr (b, r', out', cnt', rest) \<Longrightarrow> length rest < length chs"
  by (auto simp: loop_def split: sum.splits dest: loop_chunks_shorter)

text \<open>
  \<open>run(Parser &)\<close>: each round opens the file named by the prefix and \<open>count\<close>
  (here the map from \<open>count\<close> to what the file holds when the round is over), resets the
  device and runs one pass.
\<close>

function run_files ::
  "macros \<Rightarrow> parser \<Rightarrow> runner \<Rightarrow> (int \<rightharpoonup> byte list) \<Rightarrow> int \<Rightarrow> tick list list \<Rightarrow>
   hang + (runner \<times> (int \<rightharpoonup> byte list) \<times> int)" where
  "run_files m p r fs cnt chs =
     (case loop m p (reset p r) new_file cnt chs of
        Inl h \<Rightarrow> Inl h
      | Inr (again, r', out, cnt', rest) \<Rightarrow>
          if again then run_files m p r' (fs(cnt \<mapsto> content out)) cnt' rest
          else Inr (r', fs(cnt \<mapsto> content out), cnt'))"
  by pat_completeness auto
termination
  by (relation "measure (\<lambda>(m, p, r, fs, cnt, chs). length chs)") (auto dest: loop_shorter)

text \<open>\<open>run(Parser &, std::ostream &)\<close>: \<open>while (running && count == 0)\<close>.\<close>

function run_stream ::
  "macros \<Rightarrow> parser \<Rightarrow> runner \<Rightarrow> sink \<Rightarrow> int \<Rightarrow> tick list list \<Rightarrow>
   hang + (runner \<times> sink \<times> int)" where
  "run_stream m p r out cnt chs =
     (case loop m p (reset p r) out cnt chs of
        Inl h \<Rightarrow> Inl h
      | Inr (again, r', out', cnt', rest) \<Rightarrow>
          if again \<and> cnt' = 0 then run_stream m p r' out' cnt' rest
          else Inr (r', out', cnt'))"
  by pat_completeness auto
termination
  by (relation "measure (\<lambda>(m, p, r, out, cnt, chs). length chs)") (auto dest: loop_shorter)

definition run :: "macros \<Rightarrow> parser \<Rightarrow> runner \<Rightarrow> tick list list \<Rightarrow>
   hang + (runner \<times> (int \<rightharpoonup> byte list) \<times> int)" where
  "run m p r chs = run_files m p r Map.empty 0 chs"

definition run_ostream ::
  "macros \<Rightarrow> parser \<Rightarrow> runner \<Rightarrow> sink \<Rightarrow> tick list list \<Rightarrow> hang + (runner \<times> sink \<times> int)" where
  "run_ostream m p r out chs = run_stream m p r out 0 chs"

text \<open>The number of \<open>reset\<close> calls a trace records: one power cut each.\<close>

definition resets :: "hw_event list \<Rightarrow> nat" where
  "resets tr = length (filter (\<lambda>e. case e of DigitalWrite port level \<Rightarrow> level | _ \<Rightarrow> False) tr)"

text \<open>
  What a session that returned has to show: the value of \<open>count\<close> and the number of
  resets.
\<close>

definition final_count :: "hang + (runner \<times> 'a \<times> int) \<Rightarrow> int option" where
  "final_count res = (case res of Inl h \<Rightarrow> None | Inr (r, x, cnt) \<Rightarrow> Some cnt)"

definition rounds_run :: "hang + (runner \<times> 'a \<times> int) \<Rightarrow> nat option" where
  "rounds_run res = (case res of Inl h \<Rightarrow> None | Inr (r, x, cnt) \<Rightarrow> Some (resets (r_trace r)))"

section \<open>Key derivation (\<open>gen_key\<close>, lines 40 to 68)\<close>

text \<open>
  \<open>out_str\<close> is what the single-shot run left in the string stream; \<open>in\<close> walks over
  its \<open>c_str()\<close>, the bytes followed by one NUL. The position file holds integers
  separated by white space and is given as their list; an extraction from the exhausted
  file fails and leaves \<open>nextBit\<close> as it was. \<open>result\<close> is \<open>new char[key_size]\<close>: cells
  that were never written hold \<open>None\<close>. Three things are undefined in C++, and the model
  stops there with an error: the loop going on with \<open>in\<close> behind the NUL (it reads
  there or moves \<open>in\<close> further), a write behind the last cell of \<open>result\<close>, and the
  comparison with a \<open>nextBit\<close> that was never assigned.
\<close>

datatype key_error = ReadPastEnd | WritePastEnd | UninitialisedRead

record key_state =
  pos_file :: "int list"
  nextBit :: "int option"
  bit_count :: int
  index :: nat
  result :: "byte option list"
  nextLine :: bool

definition read_pos :: "key_state \<Rightarrow> bool \<times> key_state" where
  "read_pos k =
     (case pos_file k of
        [] \<Rightarrow> (False, k)
      | q # qs \<Rightarrow> (True, k\<lparr>nextBit := Some q, pos_file := qs\<rparr>))"

text \<open>The \<open>for\<close> loop over \<open>shift\<close>; the third argument is \<open>shift + 1\<close>.\<close>

fun for_shift :: "nat \<Rightarrow> byte \<Rightarrow> nat \<Rightarrow> key_state \<Rightarrow> key_error + key_state" where
  "for_shift key_size b 0 k = Inr k"
| "for_shift key_size b (Suc shift) k =
     (if \<not> nextLine k then Inr k
      else (case nextBit k of
              None \<Rightarrow> Inl UninitialisedRead
            | Some nb \<Rightarrow>
                if bit_count k = nb
                then (if index k < key_size
                      then (let k1 = k\<lparr>result :=
                                         (result k)[index k := Some ((drop_bit shift b AND 1) + 48)],
                                       index := Suc (index k)\<rparr>;
                                (ok, k2) = read_pos k1;
                                k3 = (if ok then k2 else k2\<lparr>nextLine := False\<rparr>)
                            in for_shift key_size b shift (k3\<lparr>bit_count := bit_count k3 + 1\<rparr>))
                      else Inl WritePastEnd)
                else for_shift key_size b shift (k\<lparr>bit_count := bit_count k + 1\<rparr>)))"

text \<open>The \<open>while (nextLine)\<close> loop; the list is what is left of the buffer at \<open>in\<close>.\<close>

fun while_nextLine :: "nat \<Rightarrow> byte list \<Rightarrow> bool \<Rightarrow> key_state \<Rightarrow> key_error + key_state" where
  "while_nextLine key_size [] commaFound k = (if nextLine k then Inl ReadPastEnd else Inr k)"
| "while_nextLine key_size (b # bs) commaFound k =
     (if \<not> nextLine k then Inr k
      else if commaFound
           then (case for_shift key_size b 8 k of
                   Inl e \<Rightarrow> Inl e
                 | Inr k' \<Rightarrow> while_nextLine key_size bs True k')
           else while_nextLine key_size bs (b = 44) k)"

definition gen_key :: "byte list \<Rightarrow> int list \<Rightarrow> nat \<Rightarrow> key_error + byte option list" where
  "gen_key out_str positions key_size =
     (let k0 = \<lparr>pos_file = positions, nextBit = None, bit_count = 0, index = 0,
                result = replicate key_size None, nextLine = True\<rparr>;
          k1 = snd (read_pos k0)
      in map_sum id result (while_nextLine key_size (out_str @ [0]) False k1))"

text \<open>
  The marker events of a whole pass and of a whole multi-round session, for stating
  properties; they follow the control of \<open>loop_chunks\<close> and \<open>run_files\<close>.
\<close>

fun fired_chunks :: "macros \<Rightarrow> parser \<Rightarrow> state \<Rightarrow> tick list list \<Rightarrow> marker list" where
  "fired_chunks m p s [] = []"
| "fired_chunks m p s (ch # chs) =
     fired m p s ch @
     (case loop_chunk m p s ch of
        Inl h \<Rightarrow> []
      | Inr s' \<Rightarrow> if interrupt s' then [] else fired_chunks m p s' chs)"

function fired_files :: "macros \<Rightarrow> parser \<Rightarrow> runner \<Rightarrow> int \<Rightarrow> tick list list \<Rightarrow> marker list" where
  "fired_files m p r cnt chs =
     fired_chunks m p
       (loop_entry (r_expectInput (reset p r)) (r_trace (reset p r)) new_file cnt) chs @
     (case loop m p (reset p r) new_file cnt chs of
        Inl h \<Rightarrow> []
      | Inr (again, r', out, cnt', rest) \<Rightarrow>
          if again then fired_files m p r' cnt' rest else [])"
  by pat_completeness auto
termination
  by (relation "measure (\<lambda>(m, p, r, cnt, chs). length chs)") (auto dest: loop_shorter)

declare run_files.simps [simp del] run_stream.simps [simp del] fired_files.simps [simp del]

text \<open>
  The state a pass has reached when it has handled all it can of its stream, and the
  count a multi-round session has reached when it returns or waits for ever. They are
  used to state properties only and follow the control of \<open>loop_chunk\<close>,
  \<open>loop_chunks\<close> and \<open>run_files\<close>.
\<close>

fun reached :: "macros \<Rightarrow> parser \<Rightarrow> state \<Rightarrow> tick list \<Rightarrow> state" where
  "reached m p s [] = s"
| "reached m p s (t # ts) =
     (if interrupt s then s
      else (case do_tick m p s t of Inl h \<Rightarrow> s | Inr s' \<Rightarrow> reached m p s' ts))"

fun reached_chunks :: "macros \<Rightarrow> parser \<Rightarrow> state \<Rightarrow> tick list list \<Rightarrow> state" where
  "reached_chunks m p s [] = s"
| "reached_chunks m p s (ch # chs) =
     (case loop_chunk m p s ch of
        Inl h \<Rightarrow> reached m p s ch
      | Inr s' \<Rightarrow> if interrupt s' then s' else reached_chunks m p s' chs)"

function session_count :: "macros \<Rightarrow> parser \<Rightarrow> runner \<Rightarrow> int \<Rightarrow> tick list list \<Rightarrow> int" where
  "session_count m p r cnt chs =
     (case loop m p (reset p r) new_file cnt chs of
        Inl h \<Rightarrow>
          count (reached_chunks m p
            (loop_entry (r_expectInput (reset p r)) (r_trace (reset p r)) new_file cnt) chs)
      | Inr (again, r', out, cnt', rest) \<Rightarrow>
          if again then session_count m p r' cnt' rest else cnt')"
  by pat_completeness auto
termination
  by (relation "measure (\<lambda>(m, p, r, cnt, chs). length chs)") (auto dest: loop_shorter)

declare session_count.simps [simp del]

text \<open>What an injector thread leaves alone: it only clears \<open>expectInput\<close> and sends.\<close>

definition scan_frame :: "state \<Rightarrow> state \<Rightarrow> bool" where
  "scan_frame s s' =
     (lastChar s' = lastChar s \<and> writePuf s' = writePuf s \<and> interrupt s' = interrupt s \<and>
      charCount s' = charCount s \<and> running s' = running s \<and> count s' = count s \<and>
      pufOutput s' = pufOutput s \<and> (expectInput s' \<longrightarrow> expectInput s))"


text \<open>No injector thread is alive: none to join, and every leaked one has returned.\<close>

definition idle :: "state \<Rightarrow> bool" where
  "idle s = (input s = None \<and> (\<forall>th \<in> set (leaked s). th = []))"

text \<open>
  How \<open>running\<close> and \<open>count\<close> are related during a pass that was entered with the
  count \<open>cnt0\<close>.
\<close>

definition stop_rule :: "parser \<Rightarrow> int \<Rightarrow> state \<Rightarrow> bool" where
  "stop_rule p cnt0 s =
     (cnt0 \<le> count s \<and>
      (running s \<longleftrightarrow>
         \<not> (0 < getMaxMeasures p \<and> cnt0 < count s \<and> getMaxMeasures p \<le> count s)))"

text \<open>
  For stating what \<open>gen_key\<close> computes: the character for the bit at offset \<open>d\<close> of a
  byte sequence, counted from the most significant bit of the first byte.
\<close>

definition selected_bit :: "byte list \<Rightarrow> nat \<Rightarrow> byte" where
  "selected_bit bs d = (drop_bit (7 - d mod 8) (bs ! (d div 8)) AND 1) + 48"

text \<open>
  The scan is at bit \<open>c\<close>, waits for the positions \<open>P\<close> (the first in \<open>nextBit\<close>, the
  others still in the file) and has written \<open>i\<close> cells of \<open>res\<close>.
\<close>

definition holds :: "key_state \<Rightarrow> int \<Rightarrow> int list \<Rightarrow> nat \<Rightarrow> byte option list \<Rightarrow> bool" where
  "holds k c P i res =
     (nextLine k \<and> bit_count k = c \<and> index k = i \<and> result k = res \<and>
      (case P of [] \<Rightarrow> False | q # qs \<Rightarrow> nextBit k = Some q \<and> pos_file k = qs))"

text \<open>The character written for position \<open>x\<close> inside the byte that ends before bit \<open>E\<close>.\<close>

definition seen :: "byte \<Rightarrow> int \<Rightarrow> int \<Rightarrow> byte option" where
  "seen b E x = Some ((drop_bit (nat (E - 1 - x)) b AND 1) + 48)"

text \<open>
  The positions that fall before bit \<open>E\<close> and those that do not, and the state in which
  the \<open>for\<close> loop leaves a byte that ends before bit \<open>E\<close>.
\<close>

definition matched :: "int \<Rightarrow> int list \<Rightarrow> int list" where
  "matched E P = takeWhile (\<lambda>x. x < E) P"

definition pending :: "int \<Rightarrow> int list \<Rightarrow> int list" where
  "pending E P = dropWhile (\<lambda>x. x < E) P"

definition byte_done ::
  "key_state \<Rightarrow> byte \<Rightarrow> int \<Rightarrow> int list \<Rightarrow> nat \<Rightarrow> byte option list \<Rightarrow> bool" where
  "byte_done k' b E P i res =
     (result k' = take i res @ map (seen b E) (matched E P) @ drop (i + length (matched E P)) res \<and>
      (if pending E P = [] then \<not> nextLine k'
       else holds k' E (pending E P) (i + length (matched E P)) (result k')))"

section \<open>A configuration to run the model on\<close>

text \<open>
  The header with the marker bytes is not at hand; these twelve bytes give six
  signatures that share no byte. The streams below are written with them.
\<close>

definition test_macros :: macros where
  "test_macros =
     \<lparr>START_1 = 1, START_2 = 2, END_1 = 3, END_2 = 4, LOADED_1 = 5, LOADED_2 = 6,
      ASK_INPUT_1 = 7, ASK_INPUT_2 = 8, FINISHED_1 = 9, FINISHED_2 = 10,
      PANIC_1 = 11, PANIC_2 = 12, FLUSH_INTERVAL = 1024\<rparr>"

definition test_parser :: parser where
  "test_parser =
     \<lparr>getMaxMeasures = 3, getParams = [[97], [98]], getUSBPort = 0, getUSBSleepTime = 1\<rparr>"

definition test_runner :: runner where
  "test_runner = \<lparr>r_expectInput = False, r_trace = []\<rparr>"

definition two_passes :: "tick list list" where
  "two_passes = [map Rx [1, 2, 65, 3, 4, 11, 12], map Rx [1, 2, 3, 4, 1, 2, 3, 4, 9, 10]]"

text \<open>The entry of a pass with the may-send signal already raised.\<close>

definition signal_raised :: state where
  "signal_raised = loop_entry True [] new_ostringstream 0"

definition four_captures :: "tick list list" where
  "four_captures =
     [map Rx [1, 2, 3, 4, 1, 2, 3, 4, 1, 2, 3, 4, 1, 2, 65, 66, 3, 4, 9, 10]]"

text \<open>A parser with a maximum of one measurement, for single-shot sessions.\<close>

definition single_shot_parser :: parser where
  "single_shot_parser = test_parser\<lparr>getMaxMeasures := 1\<rparr>"

definition panic_then_capture :: "tick list list" where
  "panic_then_capture = [map Rx [11, 12], map Rx [1, 2, 65, 66, 67, 3, 4, 9, 10]]"

text \<open>A parser without a maximum, and a stream whose first pass holds two captures.\<close>

definition no_maximum_parser :: parser where
  "no_maximum_parser = test_parser\<lparr>getMaxMeasures := 0\<rparr>"

definition two_captures :: "tick list list" where
  "two_captures = [map Rx [1, 2, 65, 3, 4, 1, 2, 66, 3, 4, 9, 10], map Rx [1, 2, 3, 4, 9, 10]]"

lemmas scanner_defs =
  loop_entry_def do_tick_def inj_turn_def step_def marker_at_def on_marker_def join_input_def
  after_marker_def close_output_def sink_put_def sink_flush_def sink_close_def accepts_def
  new_file_def new_ostringstream_def capture_of_def

lemmas test_defs = test_macros_def test_parser_def test_runner_def

section \<open>What the injector threads leave untouched\<close>

lemma run_thread_frame:
  "run_thread th s = Some s' \<Longrightarrow> scan_frame s s' \<and> input s' = input s \<and> leaked s' = leaked s"
proof (induction th arbitrary: s)
  case Nil
  then show ?case by (simp add: scan_frame_def)
next
  case (Cons param ps)
  show ?case
  proof (cases "expectInput s")
    case True
    with Cons.prems
    have "run_thread ps (s\<lparr>expectInput := False, trace := trace s @ send_param param\<rparr>) = Some s'"
      by simp
    from Cons.IH [OF this] True show ?thesis by (simp add: scan_frame_def)
  next
    case False
    with Cons.prems show ?thesis by (simp add: scan_frame_def split: if_splits)
  qed
qed

lemma thread_turn_frame:
  "thread_turn s th = (s', th') \<Longrightarrow>
   scan_frame s s' \<and> input s' = input s \<and> leaked s' = leaked s"
  by (cases th) (auto simp: scan_frame_def split: if_splits)

lemma join_input_frame:
  "join_input s = Inr s' \<Longrightarrow> scan_frame s s' \<and> leaked s' = leaked s \<and> input s' = None"
  by (auto simp: join_input_def scan_frame_def split: option.splits dest!: run_thread_frame)

lemma join_input_None: "input s = None \<Longrightarrow> join_input s = Inr s"
  by (simp add: join_input_def)

lemma inj_turn_frame: "scan_frame s (inj_turn k s)"
  by (cases k)
     (auto simp: inj_turn_def scan_frame_def split: option.splits prod.splits
           dest!: thread_turn_frame)

lemma after_marker_count: "count (after_marker m c s) = count s"
  by (simp add: after_marker_def Let_def)

lemma on_marker_count:
  assumes "on_marker p ev s = Inr s'"
  shows "count s' = count s + (if ev = Some END then 1 else 0)"
proof (cases ev)
  case None
  with assms show ?thesis by (simp add: on_marker_def)
next
  case (Some a)
  with assms show ?thesis
    by (cases a)
       (auto simp: on_marker_def close_output_def Let_def scan_frame_def
             split: sum.splits if_splits dest!: join_input_frame)
qed

lemma step_count:
  "step m p s c = Inr s' \<Longrightarrow>
   count s' = count s + (if marker_at m (lastChar s) c = Some END then 1 else 0)"
  by (auto simp: step_def after_marker_count split: sum.splits dest!: on_marker_count)

lemma do_tick_count:
  "do_tick m p s t = Inr s' \<Longrightarrow>
   count s' = count s +
     (case t of Rx c \<Rightarrow> if marker_at m (lastChar s) c = Some END then 1 else 0 | Inj k \<Rightarrow> 0)"
  using inj_turn_frame [of s]
  by (cases t) (auto simp: do_tick_def scan_frame_def dest!: step_count)

lemma loop_chunk_count:
  "loop_chunk m p s ts = Inr s' \<Longrightarrow> count s' = count s + int (count_list (fired m p s ts) END)"
proof (induction ts arbitrary: s)
  case Nil
  then show ?case by simp
next
  case (Cons t ts)
  show ?case
  proof (cases "interrupt s")
    case True
    with Cons.prems show ?thesis by simp
  next
    case False
    with Cons.prems obtain s1
      where t: "do_tick m p s t = Inr s1" and r: "loop_chunk m p s1 ts = Inr s'"
      by (auto split: sum.splits)
    from Cons.IH [OF r] do_tick_count [OF t] False t show ?thesis
      by (cases t) (auto split: option.splits)
  qed
qed

lemma loop_chunks_count:
  "loop_chunks m p s chs = Inr (s', rest) \<Longrightarrow>
   count s' = count s + int (count_list (fired_chunks m p s chs) END)"
proof (induction chs arbitrary: s)
  case Nil
  then show ?case by simp
next
  case (Cons ch chs)
  from Cons.prems obtain s1 where s1: "loop_chunk m p s ch = Inr s1"
    by (auto split: sum.splits)
  note c1 = loop_chunk_count [OF s1]
  show ?case
  proof (cases "interrupt s1")
    case True
    with Cons.prems s1 c1 show ?thesis by simp
  next
    case False
    with Cons.prems s1 have "loop_chunks m p s1 chs = Inr (s', rest)" by simp
    from Cons.IH [OF this] c1 s1 False show ?thesis by simp
  qed
qed

section \<open>The scanner step, marker by marker\<close>

lemma step_on_START:
  "marker_at m (lastChar s) c = Some START \<Longrightarrow> input s = None \<Longrightarrow>
   step m p s c = Inr (after_marker m c (s\<lparr>writePuf := True\<rparr>))"
  by (simp add: step_def on_marker_def join_input_def)

lemma step_on_END:
  "marker_at m (lastChar s) c = Some END \<Longrightarrow>
   step m p s c =
     Inr (after_marker m c
       ((close_output (s\<lparr>count := count s + 1, writePuf := False\<rparr>))
          \<lparr>running := running s \<and> \<not> (getMaxMeasures p > 0 \<and> count s + 1 \<ge> getMaxMeasures p)\<rparr>))"
  by (simp add: step_def on_marker_def Let_def close_output_def)

lemma step_on_None:
  "marker_at m (lastChar s) c = None \<Longrightarrow> step m p s c = Inr (after_marker m c s)"
  by (simp add: step_def on_marker_def)

lemma after_marker_fields:
  "writePuf (after_marker m c s) = writePuf s"
  "lastChar (after_marker m c s) = c"
  "interrupt (after_marker m c s) = interrupt s"
  "input (after_marker m c s) = input s"
  "leaked (after_marker m c s) = leaked s"
  "running (after_marker m c s) = running s"
  "expectInput (after_marker m c s) = expectInput s"
  "trace (after_marker m c s) = trace s"
  "charCount (after_marker m c s) = (if writePuf s then charCount s + 1 else charCount s)"
  by (simp_all add: after_marker_def Let_def)

lemma after_marker_accepts:
  "accepts (pufOutput (after_marker m c s)) = accepts (pufOutput s)"
  by (simp add: after_marker_def Let_def accepts_def sink_put_def sink_flush_def)

lemma after_marker_content:
  "content (pufOutput (after_marker m c s)) =
     (if writePuf s \<and> charCount s > 1 \<and> accepts (pufOutput s)
      then content (pufOutput s) @ [lastChar s] else content (pufOutput s))"
  by (simp add: after_marker_def Let_def sink_put_def sink_flush_def)

lemma close_output_fields:
  "content (pufOutput (close_output s)) = content (pufOutput s)"
  "lastChar (close_output s) = lastChar s"
  "writePuf (close_output s) = writePuf s"
  "interrupt (close_output s) = interrupt s"
  "charCount (close_output s) = charCount s"
  "input (close_output s) = input s"
  "leaked (close_output s) = leaked s"
  "running (close_output s) = running s"
  "count (close_output s) = count s"
  "expectInput (close_output s) = expectInput s"
  "trace (close_output s) = trace s"
  by (simp_all add: close_output_def sink_close_def sink_flush_def)

section \<open>The round counter\<close>

lemma step_hangs_not_END:
  "step m p s c = Inl h \<Longrightarrow> marker_at m (lastChar s) c \<noteq> Some END"
  by (auto simp: step_def on_marker_def Let_def split: sum.splits)

lemma reached_count:
  "count (reached m p s ts) = count s + int (count_list (fired m p s ts) END)"
proof (induction ts arbitrary: s)
  case Nil
  show ?case by simp
next
  case (Cons t ts)
  show ?case
  proof (cases "interrupt s")
    case True
    then show ?thesis by simp
  next
    case False
    show ?thesis
    proof (cases "do_tick m p s t")
      case (Inl h)
      with False show ?thesis
        by (cases t) (auto simp: do_tick_def dest: step_hangs_not_END split: option.splits)
    next
      case (Inr s1)
      from Cons.IH [of s1] do_tick_count [OF Inr] False Inr show ?thesis
        by (cases t) (auto split: option.splits)
    qed
  qed
qed

lemma reached_chunks_count:
  "count (reached_chunks m p s chs) = count s + int (count_list (fired_chunks m p s chs) END)"
proof (induction chs arbitrary: s)
  case Nil
  show ?case by simp
next
  case (Cons ch chs)
  show ?case
  proof (cases "loop_chunk m p s ch")
    case (Inl h)
    then show ?thesis by (simp add: reached_count)
  next
    case (Inr s1)
    note c1 = loop_chunk_count [OF Inr]
    show ?thesis
    proof (cases "interrupt s1")
      case True
      with Inr c1 show ?thesis by simp
    next
      case False
      with Inr c1 Cons.IH [of s1] show ?thesis by simp
    qed
  qed
qed

lemma session_count_fired:
  "session_count m p r cnt chs = cnt + int (count_list (fired_files m p r cnt chs) END)"
proof (induction m p r cnt chs rule: session_count.induct)
  case (1 m p r cnt chs)
  let ?e = "loop_entry (r_expectInput (reset p r)) (r_trace (reset p r)) new_file cnt"
  have e: "count ?e = cnt" by (simp add: loop_entry_def)
  show ?case
  proof (cases "loop m p (reset p r) new_file cnt chs")
    case (Inl h)
    with reached_chunks_count [of m p ?e chs] e show ?thesis
      by (subst session_count.simps, subst fired_files.simps) simp
  next
    case (Inr x)
    then obtain again r1 out cnt1 rest
      where l: "loop m p (reset p r) new_file cnt chs = Inr (again, r1, out, cnt1, rest)"
      by (cases x) auto
    then obtain s1 where lc: "loop_chunks m p ?e chs = Inr (s1, rest)" and c1: "cnt1 = count s1"
      by (auto simp: loop_def split: sum.splits)
    from loop_chunks_count [OF lc] c1 e
    have pass: "cnt1 = cnt + int (count_list (fired_chunks m p ?e chs) END)" by simp
    show ?thesis
    proof (cases again)
      case True
      from "1.IH" [OF l refl refl refl refl True] pass l True show ?thesis
        by (subst session_count.simps, subst fired_files.simps) simp
    next
      case False
      with pass l show ?thesis
        by (subst session_count.simps, subst fired_files.simps) simp
    qed
  qed
qed

lemma run_files_session_count:
  "run_files m p r fs cnt chs = Inr (r', fs', cnt') \<Longrightarrow> cnt' = session_count m p r cnt chs"
proof (induction m p r fs cnt chs rule: run_files.induct)
  case (1 m p r fs cnt chs)
  from "1.prems" obtain again r1 out cnt1 rest
    where l: "loop m p (reset p r) new_file cnt chs = Inr (again, r1, out, cnt1, rest)"
    by (subst (asm) run_files.simps) (auto split: sum.splits)
  show ?case
  proof (cases again)
    case True
    with "1.prems" l have "run_files m p r1 (fs(cnt \<mapsto> content out)) cnt1 rest = Inr (r', fs', cnt')"
      by (subst (asm) run_files.simps) simp
    from "1.IH" [OF l refl refl refl refl True this] l True show ?thesis
      by (subst session_count.simps) simp
  next
    case False
    with "1.prems" l have "cnt' = cnt1" by (subst (asm) run_files.simps) simp
    with l False show ?thesis by (subst session_count.simps) simp
  qed
qed

text \<open>
  C5: every END event handled by the scanner adds exactly 1 to the round counter and
  nothing else changes it: a PANIC event, any other event and a turn of an injector
  thread add 0. So over a pass, and over a whole multi-round session, the counter grows
  by exactly the number of END events among the marker events that were handled, however
  many PANIC events there were. This holds for the count a session has reached when it
  returns and when it waits for ever (a session without a maximum never returns).
\<close>

theorem END_counts_one_PANIC_counts_none:
  "(\<forall>s c s'. step m p s c = Inr s' \<longrightarrow>
      count s' = count s + (if marker_at m (lastChar s) c = Some END then 1 else 0)) \<and>
   (\<forall>s k. count (inj_turn k s) = count s) \<and>
   (\<forall>s chs0 s' rest. loop_chunks m p s chs0 = Inr (s', rest) \<longrightarrow>
      count s' = count s + int (count_list (fired_chunks m p s chs0) END)) \<and>
   session_count m p r cnt chs = cnt + int (count_list (fired_files m p r cnt chs) END) \<and>
   (\<forall>fs r' fs' cnt'. run_files m p r fs cnt chs = Inr (r', fs', cnt') \<longrightarrow>
      cnt' = cnt + int (count_list (fired_files m p r cnt chs) END))"
proof -
  have a: "\<forall>s k. count (inj_turn k s) = count s"
    using inj_turn_frame by (simp add: scan_frame_def)
  have b: "\<forall>fs r' fs' cnt'. run_files m p r fs cnt chs = Inr (r', fs', cnt') \<longrightarrow>
      cnt' = cnt + int (count_list (fired_files m p r cnt chs) END)"
    using run_files_session_count session_count_fired by metis
  from a b show ?thesis
    by (simp add: step_count loop_chunks_count session_count_fired)
qed

theorem END_counts_one_PANIC_counts_none_witness:
  "run_files test_macros no_maximum_parser test_runner Map.empty 0 two_passes = Inl ReadBlocked \<and>
   session_count test_macros no_maximum_parser test_runner 0 two_passes = 3 \<and>
   count_list (fired_files test_macros no_maximum_parser test_runner 0 two_passes) END = 3 \<and>
   count_list (fired_files test_macros no_maximum_parser test_runner 0 two_passes) PANIC = 1 \<and>
   (\<exists>r' fs'. run_files test_macros test_parser test_runner Map.empty 0 two_passes = Inr (r', fs', 3)) \<and>
   count_list (fired_files test_macros test_parser test_runner 0 two_passes) END = 3"
proof -
  have blocked:
    "run_files test_macros no_maximum_parser test_runner Map.empty 0 two_passes = Inl ReadBlocked"
    by (simp add: two_passes_def no_maximum_parser_def test_defs scanner_defs loop_def reset_def
        run_files.simps)
  have sc: "session_count test_macros no_maximum_parser test_runner 0 two_passes = 3"
    by (simp add: two_passes_def no_maximum_parser_def test_defs scanner_defs loop_def reset_def
        session_count.simps)
  have pn: "count_list (fired_files test_macros no_maximum_parser test_runner 0 two_passes) PANIC = 1"
    by (simp add: two_passes_def no_maximum_parser_def test_defs scanner_defs loop_def reset_def
        fired_files.simps)
  have "\<exists>r' fs'. run_files test_macros test_parser test_runner Map.empty 0 two_passes = Inr (r', fs', 3)"
    by (simp add: two_passes_def test_defs scanner_defs loop_def reset_def run_files.simps)
  then obtain r' fs' where
    run: "run_files test_macros test_parser test_runner Map.empty 0 two_passes = Inr (r', fs', 3)"
    by blast
  note a = END_counts_one_PANIC_counts_none
             [of test_macros no_maximum_parser test_runner 0 two_passes]
  note b = END_counts_one_PANIC_counts_none
             [of test_macros test_parser test_runner 0 two_passes]
  from a sc have e1:
    "count_list (fired_files test_macros no_maximum_parser test_runner 0 two_passes) END = 3"
    by simp
  from b have "\<forall>fs r' fs' cnt'.
      run_files test_macros test_parser test_runner fs 0 two_passes = Inr (r', fs', cnt') \<longrightarrow>
      cnt' = 0 + int (count_list (fired_files test_macros test_parser test_runner 0 two_passes) END)"
    by blast
  from this [rule_format, OF run] have e2:
    "count_list (fired_files test_macros test_parser test_runner 0 two_passes) END = 3"
    by simp
  from blocked sc pn e1 e2 run show ?thesis by blast
qed

section \<open>Framing of one capture\<close>

text \<open>
  C1, as the claim states it: the payload of START, A, B, C, END is A, B. The pass writes
  A, B and C, so the payload is not A, B.
\<close>

theorem payload_AB_counterexample:
  "capture_of (loop_chunk test_macros test_parser (loop_entry False [] new_file 0)
     (map Rx [1, 2, 65, 66, 67, 3, 4])) \<noteq> Some [65, 66]"
  by (simp add: test_defs scanner_defs)


text \<open>
  C1, amended: a pass that starts at the entry of \<open>loop\<close> and reads START, A, B, C, END,
  with no other marker matching inside, leaves exactly A, B, C in a sink that takes
  writes: the write is deferred by one byte and suppressed while the counter is at
  most 1, which drops the four sentinel bytes and nothing else.
\<close>

theorem capture_keeps_all_payload_bytes:
  assumes "marker_at m 32 (START_1 m) = None"
    and "marker_at m (START_2 m) 65 = None"
    and "marker_at m 65 66 = None"
    and "marker_at m 66 67 = None"
    and "marker_at m 67 (END_1 m) = None"
    and "marker_at m (END_1 m) (END_2 m) = Some END"
    and "accepts out"
  shows "capture_of (loop_chunk m p (loop_entry e tr out cnt)
           (map Rx [START_1 m, START_2 m, 65, 66, 67, END_1 m, END_2 m]))
         = Some (content out @ [65, 66, 67])"
proof -
  have st: "marker_at m (START_1 m) (START_2 m) = Some START"
    by (simp add: marker_at_def)
  have entry:
    "lastChar (loop_entry e tr out cnt) = 32" "\<not> writePuf (loop_entry e tr out cnt)"
    "\<not> interrupt (loop_entry e tr out cnt)" "charCount (loop_entry e tr out cnt) = 0"
    "input (loop_entry e tr out cnt) = None" "pufOutput (loop_entry e tr out cnt) = out"
    by (simp_all add: loop_entry_def)
  show ?thesis
    using assms st entry
    by (simp add: do_tick_def step_on_START step_on_END step_on_None capture_of_def
        after_marker_fields after_marker_accepts after_marker_content close_output_fields
        split del: if_split)
qed

theorem capture_keeps_all_payload_bytes_witness:
  "capture_of (loop_chunk test_macros test_parser (loop_entry False [] new_file 0)
     (map Rx [1, 2, 65, 66, 67, 3, 4])) = Some [65, 66, 67]"
proof -
  have "capture_of (loop_chunk test_macros test_parser (loop_entry False [] new_file 0)
     (map Rx [START_1 test_macros, START_2 test_macros, 65, 66, 67, END_1 test_macros, END_2 test_macros]))
     = Some (content new_file @ [65, 66, 67])"
    by (rule capture_keeps_all_payload_bytes)
       (simp_all add: test_macros_def marker_at_def new_file_def accepts_def)
  then show ?thesis by (simp add: test_macros_def new_file_def)
qed


section \<open>The byte counter over a pass\<close>




lemma step_obtain:
  assumes "step m p s c = Inr s'"
  obtains s1 where "on_marker p (marker_at m (lastChar s) c) s = Inr s1"
    and "s' = after_marker m c s1"
  using assms by (auto simp: step_def split: sum.splits)












section \<open>The may-send signal and what the injector sends\<close>

lemma on_marker_signal:
  assumes "on_marker p ev s = Inr s1" and "input s = None"
  shows "expectInput s1 = (expectInput s \<or> ev = Some ASK_INPUT)"
    and "trace s1 = trace s"
    and "ev \<noteq> Some LOADED \<Longrightarrow> input s1 = None \<and> leaked s1 = leaked s"
proof -
  have "expectInput s1 = (expectInput s \<or> ev = Some ASK_INPUT) \<and> trace s1 = trace s \<and>
        (ev \<noteq> Some LOADED \<longrightarrow> input s1 = None \<and> leaked s1 = leaked s)"
  proof (cases ev)
    case None
    with assms show ?thesis by (simp add: on_marker_def)
  next
    case (Some a)
    with assms show ?thesis
      by (cases a)
         (auto simp: on_marker_def close_output_def Let_def join_input_def split: if_splits)
  qed
  then show "expectInput s1 = (expectInput s \<or> ev = Some ASK_INPUT)"
    and "trace s1 = trace s"
    and "ev \<noteq> Some LOADED \<Longrightarrow> input s1 = None \<and> leaked s1 = leaked s"
    by simp_all
qed

lemma on_marker_never_sets:
  assumes "on_marker p ev s = Inr s1" and "ev \<noteq> Some ASK_INPUT"
  shows "expectInput s1 \<longrightarrow> expectInput s"
proof (cases ev)
  case None
  with assms show ?thesis by (simp add: on_marker_def)
next
  case (Some a)
  with assms show ?thesis
    by (cases a)
       (auto simp: on_marker_def close_output_def Let_def scan_frame_def
             split: sum.splits if_splits dest!: join_input_frame)
qed

lemma step_signal:
  assumes "step m p s c = Inr s'"
  shows "input s = None \<Longrightarrow>
           expectInput s' = (expectInput s \<or> marker_at m (lastChar s) c = Some ASK_INPUT)"
    and "marker_at m (lastChar s) c \<noteq> Some ASK_INPUT \<Longrightarrow> expectInput s' \<longrightarrow> expectInput s"
    and "marker_at m (lastChar s) c = Some ASK_INPUT \<Longrightarrow> expectInput s'"
proof -
  from assms obtain s1 where o: "on_marker p (marker_at m (lastChar s) c) s = Inr s1"
    and s': "s' = after_marker m c s1" by (rule step_obtain)
  show "input s = None \<Longrightarrow>
           expectInput s' = (expectInput s \<or> marker_at m (lastChar s) c = Some ASK_INPUT)"
    using on_marker_signal(1) [OF o] s' by (simp add: after_marker_fields)
  show "marker_at m (lastChar s) c \<noteq> Some ASK_INPUT \<Longrightarrow> expectInput s' \<longrightarrow> expectInput s"
    using on_marker_never_sets [OF o] s' by (simp add: after_marker_fields)
  show "marker_at m (lastChar s) c = Some ASK_INPUT \<Longrightarrow> expectInput s'"
    using o s' by (auto simp: after_marker_fields on_marker_def)
qed

lemma inj_turn_idle: "idle s \<Longrightarrow> inj_turn k s = s"
proof (cases k)
  case 0
  assume "idle s"
  with 0 show ?thesis by (simp add: inj_turn_def idle_def)
next
  case (Suc j)
  assume i: "idle s"
  show ?thesis
  proof (cases "j < length (leaked s)")
    case True
    with i have e: "leaked s ! j = []" by (simp add: idle_def)
    with list_update_id [of "leaked s" j] have "(leaked s)[j := []] = leaked s" by simp
    with True Suc e show ?thesis by (simp add: inj_turn_def)
  next
    case False
    with Suc show ?thesis by (simp add: inj_turn_def)
  qed
qed

lemma do_tick_idle:
  assumes t: "do_tick m p s t = Inr s'" and i: "idle s"
    and nl: "\<forall>c. t = Rx c \<longrightarrow> marker_at m (lastChar s) c \<noteq> Some LOADED"
  shows "idle s' \<and> (expectInput s \<longrightarrow> expectInput s') \<and> trace s' = trace s"
proof (cases t)
  case (Inj k)
  with t i show ?thesis by (simp add: do_tick_def inj_turn_idle)
next
  case (Rx c)
  with t have "step m p s c = Inr s'" by (simp add: do_tick_def)
  then obtain s1 where o: "on_marker p (marker_at m (lastChar s) c) s = Inr s1"
    and s': "s' = after_marker m c s1" by (rule step_obtain)
  from i have n: "input s = None" by (simp add: idle_def)
  from nl Rx have "marker_at m (lastChar s) c \<noteq> Some LOADED" by simp
  with on_marker_signal [OF o n] s' i show ?thesis
    by (simp add: after_marker_fields idle_def)
qed

lemma loop_chunk_idle:
  "loop_chunk m p s ts = Inr s' \<Longrightarrow> idle s \<Longrightarrow> LOADED \<notin> set (fired m p s ts) \<Longrightarrow>
   idle s' \<and> (expectInput s \<longrightarrow> expectInput s') \<and> trace s' = trace s"
proof (induction ts arbitrary: s)
  case Nil
  then show ?case by simp
next
  case (Cons t ts)
  show ?case
  proof (cases "interrupt s")
    case True
    with Cons.prems show ?thesis by simp
  next
    case False
    with Cons.prems obtain s1
      where t: "do_tick m p s t = Inr s1" and r: "loop_chunk m p s1 ts = Inr s'"
      by (auto split: sum.splits)
    from Cons.prems(3) False t
    have nl: "\<forall>c. t = Rx c \<longrightarrow> marker_at m (lastChar s) c \<noteq> Some LOADED"
      and rest: "LOADED \<notin> set (fired m p s1 ts)"
      by (auto split: option.splits tick.splits)
    from do_tick_idle [OF t Cons.prems(2) nl]
    have i1: "idle s1" and e1: "expectInput s \<longrightarrow> expectInput s1" and t1: "trace s1 = trace s"
      by blast+
    from Cons.IH [OF r i1 rest] e1 t1 show ?thesis by simp
  qed
qed

lemma tx_bytes_append: "tx_bytes (xs @ ys) = tx_bytes xs @ tx_bytes ys"
  by (induction xs rule: tx_bytes.induct) simp_all

lemma run_thread_quiet: "\<not> expectInput s \<Longrightarrow> run_thread th s = Some s' \<Longrightarrow> s' = s"
  by (cases th) (auto split: if_splits)

lemma run_thread_release:
  assumes "run_thread (param # ps) s = Some s'" and "expectInput s"
  shows "s' = s\<lparr>expectInput := False, trace := trace s @ send_param param\<rparr>"
proof -
  let ?s1 = "s\<lparr>expectInput := False, trace := trace s @ send_param param\<rparr>"
  from assms have "run_thread ps ?s1 = Some s'" by simp
  moreover have "\<not> expectInput ?s1" by simp
  ultimately show ?thesis by (rule run_thread_quiet [rotated])
qed

lemma join_input_trace:
  assumes "join_input s = Inr s'"
  shows "input s = Some (param # ps) \<Longrightarrow> expectInput s \<Longrightarrow>
           trace s' = trace s @ send_param param \<and> \<not> expectInput s'"
    and "\<not> expectInput s \<or> input s = None \<or> input s = Some [] \<Longrightarrow>
           trace s' = trace s \<and> expectInput s' = expectInput s"
proof -
  show "trace s' = trace s @ send_param param \<and> \<not> expectInput s'"
    if "input s = Some (param # ps)" "expectInput s"
  proof -
    from assms that(1) obtain x where x: "run_thread (param # ps) s = Some x"
      and s': "s' = x\<lparr>input := None\<rparr>"
      by (auto simp: join_input_def split: option.splits simp del: run_thread.simps)
    from run_thread_release [OF x that(2)] s' show ?thesis by simp
  qed
  show "trace s' = trace s \<and> expectInput s' = expectInput s"
    if "\<not> expectInput s \<or> input s = None \<or> input s = Some []"
  proof (cases "input s")
    case None
    with assms show ?thesis by (simp add: join_input_def)
  next
    case (Some th)
    show ?thesis
    proof (cases th)
      case Nil
      with Some assms show ?thesis by (auto simp: join_input_def)
    next
      case (Cons a list)
      with Some that have ne: "\<not> expectInput s" by simp
      from assms Some obtain x where x: "run_thread th s = Some x"
        and s': "s' = x\<lparr>input := None\<rparr>"
        by (auto simp: join_input_def split: option.splits simp del: run_thread.simps)
      from run_thread_quiet [OF ne x] s' show ?thesis by simp
    qed
  qed
qed

lemma join_input_cases:
  assumes "join_input s = Inr s'"
  shows "(trace s' = trace s \<and> expectInput s' = expectInput s \<and>
          (\<not> expectInput s \<or> input s = None \<or> input s = Some [])) \<or>
         (\<exists>param ps. input s = Some (param # ps) \<and> expectInput s \<and>
            trace s' = trace s @ send_param param \<and> \<not> expectInput s')"
proof (cases "\<not> expectInput s \<or> input s = None \<or> input s = Some []")
  case True
  with join_input_trace(2) [OF assms] show ?thesis by blast
next
  case False
  then obtain param ps where "input s = Some (param # ps)" "expectInput s"
    by (cases "input s"; cases "the (input s)") auto
  with join_input_trace(1) [OF assms] show ?thesis by blast
qed


lemma on_marker_expect:
  assumes "on_marker p ev s = Inr s1"
  shows "expectInput s1 =
           (if ev = Some ASK_INPUT then True
            else if ev = Some START \<or> ev = Some FINISHED \<or> ev = Some PANIC
            then expectInput s \<and> (input s = None \<or> input s = Some [])
            else expectInput s)"
proof (cases ev)
  case None
  with assms show ?thesis by (simp add: on_marker_def)
next
  case (Some a)
  with assms show ?thesis
    by (cases a)
       (auto simp: on_marker_def close_output_def Let_def
             split: sum.splits if_splits dest!: join_input_cases)
qed



lemma step_expect:
  assumes "step m p u b = Inr u'"
  shows "expectInput u' =
           (if marker_at m (lastChar u) b = Some ASK_INPUT then True
            else if marker_at m (lastChar u) b = Some START \<or>
                    marker_at m (lastChar u) b = Some FINISHED \<or>
                    marker_at m (lastChar u) b = Some PANIC
            then expectInput u \<and> (input u = None \<or> input u = Some [])
            else expectInput u)"
proof -
  from assms obtain s1 where o: "on_marker p (marker_at m (lastChar u) b) u = Inr s1"
    and u': "u' = after_marker m b s1" by (rule step_obtain)
  from on_marker_expect [OF o] u' show ?thesis by (simp add: after_marker_fields)
qed





text \<open>
  C10: the scanner sets \<open>expectInput\<close> on ASK_INPUT and on no other marker. END, LOADED
  and a byte without marker leave the signal as it is in every state; START, FINISHED and
  PANIC leave it as it is unless the thread they join still has a parameter to send,
  which then consumes it. A turn of a thread never sets it. So a signal that is raised
  while no injector thread is alive stays raised over the rest of the pass, and the
  thread that a later LOADED spawns passes its poll on its first turn: it clears the
  signal and sends its first parameter and one carriage return, with no new ASK_INPUT;
  the same bytes go out when the scanner joins the thread instead.
\<close>

theorem may_send_signal_persists:
  assumes i: "idle s" and e: "expectInput s"
    and pass: "loop_chunk m p s ts = Inr s1"
    and nl: "LOADED \<notin> set (fired m p s ts)"
    and ld: "marker_at m (lastChar s1) c = Some LOADED"
    and ps: "getParams p = param # ps"
  shows "(\<forall>u b u'. step m p u b = Inr u' \<longrightarrow>
            expectInput u' =
              (if marker_at m (lastChar u) b = Some ASK_INPUT then True
               else if marker_at m (lastChar u) b = Some START \<or>
                       marker_at m (lastChar u) b = Some FINISHED \<or>
                       marker_at m (lastChar u) b = Some PANIC
               then expectInput u \<and> (input u = None \<or> input u = Some [])
               else expectInput u)) \<and>
         (\<forall>u b u'. step m p u b = Inr u' \<longrightarrow> marker_at m (lastChar u) b \<noteq> Some ASK_INPUT \<longrightarrow>
            (expectInput u' \<longrightarrow> expectInput u) \<and> (input u = None \<longrightarrow> expectInput u' = expectInput u)) \<and>
         (\<forall>u b u'. step m p u b = Inr u' \<longrightarrow> marker_at m (lastChar u) b = Some ASK_INPUT \<longrightarrow>
            expectInput u') \<and>
         (\<forall>u k. expectInput (inj_turn k u) \<longrightarrow> expectInput u) \<and>
         expectInput s1 \<and> trace s1 = trace s \<and>
         (\<exists>s2. step m p s1 c = Inr s2 \<and> expectInput s2 \<and> input s2 = Some (param # ps) \<and>
            trace s2 = trace s \<and>
            \<not> expectInput (inj_turn 0 s2) \<and> input (inj_turn 0 s2) = Some ps \<and>
            trace (inj_turn 0 s2) =
              trace s @ [SleepMs 50, SerialPuts (takeWhile (\<lambda>c. c \<noteq> 0) param), SerialFlush,
                         SleepMs 50, SerialPuts [13], SerialFlush] \<and>
            tx_bytes (trace (inj_turn 0 s2)) =
              tx_bytes (trace s) @ takeWhile (\<lambda>c. c \<noteq> 0) param @ [13] \<and>
            (\<forall>s3. join_input s2 = Inr s3 \<longrightarrow>
               tx_bytes (trace s3) = tx_bytes (trace s) @ takeWhile (\<lambda>c. c \<noteq> 0) param @ [13]))"
proof -
  have exact: "\<forall>u b u'. step m p u b = Inr u' \<longrightarrow>
            expectInput u' =
              (if marker_at m (lastChar u) b = Some ASK_INPUT then True
               else if marker_at m (lastChar u) b = Some START \<or>
                       marker_at m (lastChar u) b = Some FINISHED \<or>
                       marker_at m (lastChar u) b = Some PANIC
               then expectInput u \<and> (input u = None \<or> input u = Some [])
               else expectInput u)"
    by (intro allI impI) (rule step_expect)
  have frame: "\<forall>u b u'. step m p u b = Inr u' \<longrightarrow> marker_at m (lastChar u) b \<noteq> Some ASK_INPUT \<longrightarrow>
            (expectInput u' \<longrightarrow> expectInput u) \<and> (input u = None \<longrightarrow> expectInput u' = expectInput u)"
    using step_signal(1,2) by blast
  have sets: "\<forall>u b u'. step m p u b = Inr u' \<longrightarrow> marker_at m (lastChar u) b = Some ASK_INPUT \<longrightarrow>
            expectInput u'"
    using step_signal(3) by blast
  have turns: "\<forall>u k. expectInput (inj_turn k u) \<longrightarrow> expectInput u"
    using inj_turn_frame by (simp add: scan_frame_def)
  from loop_chunk_idle [OF pass i nl] e
  have i1: "idle s1" and e1: "expectInput s1" and t1: "trace s1 = trace s" by simp_all
  let ?s2 = "after_marker m c (s1\<lparr>input := Some (getParams p), leaked := leaked s1\<rparr>)"
  from i1 ld have st: "step m p s1 c = Inr ?s2"
    by (simp add: step_def on_marker_def idle_def)
  have f: "expectInput ?s2" "input ?s2 = Some (param # ps)" "trace ?s2 = trace s"
    using e1 t1 ps by (simp_all add: after_marker_fields)
  have turn: "\<not> expectInput (inj_turn 0 ?s2) \<and> input (inj_turn 0 ?s2) = Some ps \<and>
        trace (inj_turn 0 ?s2) =
              trace s @ [SleepMs 50, SerialPuts (takeWhile (\<lambda>c. c \<noteq> 0) param), SerialFlush,
                         SleepMs 50, SerialPuts [13], SerialFlush] \<and>
        tx_bytes (trace (inj_turn 0 ?s2)) =
              tx_bytes (trace s) @ takeWhile (\<lambda>c. c \<noteq> 0) param @ [13]"
    using f by (simp add: inj_turn_def send_param_def c_str_def tx_bytes_append)
  have join: "\<forall>s3. join_input ?s2 = Inr s3 \<longrightarrow>
               tx_bytes (trace s3) = tx_bytes (trace s) @ takeWhile (\<lambda>c. c \<noteq> 0) param @ [13]"
  proof (intro allI impI)
    fix s3 assume j: "join_input ?s2 = Inr s3"
    from join_input_trace(1) [OF j f(2) f(1)] f(3)
    show "tx_bytes (trace s3) = tx_bytes (trace s) @ takeWhile (\<lambda>c. c \<noteq> 0) param @ [13]"
      by (simp add: send_param_def c_str_def tx_bytes_append)
  qed
  have spawn: "\<exists>s2. step m p s1 c = Inr s2 \<and> expectInput s2 \<and> input s2 = Some (param # ps) \<and>
            trace s2 = trace s \<and>
            \<not> expectInput (inj_turn 0 s2) \<and> input (inj_turn 0 s2) = Some ps \<and>
            trace (inj_turn 0 s2) =
              trace s @ [SleepMs 50, SerialPuts (takeWhile (\<lambda>c. c \<noteq> 0) param), SerialFlush,
                         SleepMs 50, SerialPuts [13], SerialFlush] \<and>
            tx_bytes (trace (inj_turn 0 s2)) =
              tx_bytes (trace s) @ takeWhile (\<lambda>c. c \<noteq> 0) param @ [13] \<and>
            (\<forall>s3. join_input s2 = Inr s3 \<longrightarrow>
               tx_bytes (trace s3) = tx_bytes (trace s) @ takeWhile (\<lambda>c. c \<noteq> 0) param @ [13])"
    by (rule exI [of _ ?s2]) (intro conjI st f turn [THEN conjunct1]
        turn [THEN conjunct2, THEN conjunct1] turn [THEN conjunct2, THEN conjunct2, THEN conjunct1]
        turn [THEN conjunct2, THEN conjunct2, THEN conjunct2] join)
  show ?thesis by (intro conjI exact frame sets turns e1 t1 spawn)
qed

theorem may_send_signal_persists_witness:
  "\<exists>s1 s2.
     loop_chunk test_macros test_parser signal_raised (map Rx [1, 2, 65, 3, 4, 5]) = Inr s1 \<and>
     step test_macros test_parser s1 6 = Inr s2 \<and>
     expectInput s1 \<and>
     tx_bytes (trace (inj_turn 0 s2)) = [97, 13]"
proof -
  let ?ts = "map Rx [1, 2, 65, 3, 4, 5]"
  have i: "idle signal_raised" and e: "expectInput signal_raised"
    by (simp_all add: signal_raised_def idle_def loop_entry_def)
  have "\<exists>s1. loop_chunk test_macros test_parser signal_raised ?ts = Inr s1 \<and> lastChar s1 = 5"
    by (simp add: signal_raised_def test_defs scanner_defs)
  then obtain s1 where pass: "loop_chunk test_macros test_parser signal_raised ?ts = Inr s1"
    and l: "lastChar s1 = 5" by blast
  have nl: "LOADED \<notin> set (fired test_macros test_parser signal_raised ?ts)"
    by (simp add: signal_raised_def test_defs scanner_defs)
  from l have ld: "marker_at test_macros (lastChar s1) 6 = Some LOADED"
    by (simp add: marker_at_def test_macros_def)
  have ps: "getParams test_parser = [97] # [[98]]" by (simp add: test_parser_def)
  note r = may_send_signal_persists [OF i e pass nl ld ps]
  from r have e1: "expectInput s1" by (elim conjE)
  from r obtain s2 where st: "step test_macros test_parser s1 6 = Inr s2"
    and tx: "tx_bytes (trace (inj_turn 0 s2)) =
              tx_bytes (trace signal_raised) @ takeWhile (\<lambda>c. c \<noteq> 0) [97] @ [13]"
    by (elim conjE exE)
  from tx have "tx_bytes (trace (inj_turn 0 s2)) = [97, 13]"
    by (simp add: signal_raised_def loop_entry_def)
  with pass st e1 show ?thesis by (intro exI [of _ s1] exI [of _ s2] conjI)
qed

section \<open>When the driver stops\<close>

lemma on_marker_running:
  assumes "on_marker p ev s = Inr s1"
  shows "running s1 =
           (running s \<and> \<not> (ev = Some END \<and> 0 < getMaxMeasures p \<and> getMaxMeasures p \<le> count s + 1))"
proof (cases ev)
  case None
  with assms show ?thesis by (simp add: on_marker_def)
next
  case (Some a)
  with assms show ?thesis
    by (cases a)
       (auto simp: on_marker_def close_output_def Let_def scan_frame_def
             split: sum.splits if_splits dest!: join_input_frame)
qed

lemma do_tick_stop_rule:
  assumes t: "do_tick m p s t = Inr s'" and inv: "stop_rule p cnt0 s"
  shows "stop_rule p cnt0 s'"
proof (cases t)
  case (Inj k)
  with t inj_turn_frame [of s k] inv show ?thesis
    by (simp add: do_tick_def scan_frame_def stop_rule_def)
next
  case (Rx c)
  with t have st: "step m p s c = Inr s'" by (simp add: do_tick_def)
  then obtain s1 where o: "on_marker p (marker_at m (lastChar s) c) s = Inr s1"
    and s': "s' = after_marker m c s1" by (rule step_obtain)
  from on_marker_running [OF o] s'
  have r: "running s' = (running s \<and> \<not> (marker_at m (lastChar s) c = Some END \<and>
             0 < getMaxMeasures p \<and> getMaxMeasures p \<le> count s + 1))"
    by (simp add: after_marker_fields)
  from step_count [OF st] r inv show ?thesis
    by (auto simp: stop_rule_def)
qed

lemma loop_chunk_stop_rule:
  "loop_chunk m p s ts = Inr s' \<Longrightarrow> stop_rule p cnt0 s \<Longrightarrow> stop_rule p cnt0 s'"
proof (induction ts arbitrary: s)
  case Nil
  then show ?case by simp
next
  case (Cons t ts)
  show ?case
  proof (cases "interrupt s")
    case True
    with Cons.prems show ?thesis by simp
  next
    case False
    with Cons.prems obtain s1
      where t: "do_tick m p s t = Inr s1" and r: "loop_chunk m p s1 ts = Inr s'"
      by (auto split: sum.splits)
    from Cons.IH [OF r do_tick_stop_rule [OF t Cons.prems(2)]] show ?thesis .
  qed
qed

lemma loop_chunks_stop_rule:
  "loop_chunks m p s chs = Inr (s', rest) \<Longrightarrow> stop_rule p cnt0 s \<Longrightarrow> stop_rule p cnt0 s'"
proof (induction chs arbitrary: s)
  case Nil
  then show ?case by simp
next
  case (Cons ch chs)
  from Cons.prems obtain s1 where s1: "loop_chunk m p s ch = Inr s1"
    by (auto split: sum.splits)
  note i1 = loop_chunk_stop_rule [OF s1 Cons.prems(2)]
  show ?case
  proof (cases "interrupt s1")
    case True
    with Cons.prems s1 i1 show ?thesis by simp
  next
    case False
    with Cons.prems s1 have "loop_chunks m p s1 chs = Inr (s', rest)" by simp
    from Cons.IH [OF this i1] show ?thesis .
  qed
qed

lemma loop_stop_rule:
  assumes "loop m p r out cnt chs = Inr (again, r', out', cnt', rest)"
  shows "cnt \<le> cnt' \<and>
         (again \<longleftrightarrow> \<not> (0 < getMaxMeasures p \<and> cnt < cnt' \<and> getMaxMeasures p \<le> cnt'))"
proof -
  from assms obtain s' where
    lc: "loop_chunks m p (loop_entry (r_expectInput r) (r_trace r) out cnt) chs = Inr (s', rest)"
    and eq: "again = running s'" "cnt' = count s'"
    by (auto simp: loop_def split: sum.splits)
  have "stop_rule p cnt (loop_entry (r_expectInput r) (r_trace r) out cnt)"
    by (simp add: stop_rule_def loop_entry_def)
  from loop_chunks_stop_rule [OF lc this] eq show ?thesis by (simp add: stop_rule_def)
qed

lemma run_files_bound:
  "run_files m p r fs cnt chs = Inr (r', fs', cnt') \<Longrightarrow> 0 < getMaxMeasures p \<Longrightarrow>
   cnt < getMaxMeasures p \<Longrightarrow>
   getMaxMeasures p \<le> cnt' \<and> dom fs' \<subseteq> dom fs \<union> {cnt ..< getMaxMeasures p}"
proof (induction m p r fs cnt chs rule: run_files.induct)
  case (1 m p r fs cnt chs)
  from "1.prems"(1) obtain again r1 out cnt1 rest
    where l: "loop m p (reset p r) new_file cnt chs = Inr (again, r1, out, cnt1, rest)"
    by (subst (asm) run_files.simps) (auto split: sum.splits)
  from loop_stop_rule [OF l] "1.prems"(2,3)
  have mono: "cnt \<le> cnt1" and ag: "again \<longleftrightarrow> cnt1 < getMaxMeasures p" by auto
  show ?case
  proof (cases again)
    case True
    with "1.prems"(1) l
    have run: "run_files m p r1 (fs(cnt \<mapsto> content out)) cnt1 rest = Inr (r', fs', cnt')"
      by (subst (asm) run_files.simps) simp
    from True ag have "cnt1 < getMaxMeasures p" by simp
    from "1.IH" [OF l refl refl refl refl True run "1.prems"(2) this]
    have ih: "getMaxMeasures p \<le> cnt'"
      "dom fs' \<subseteq> dom (fs(cnt \<mapsto> content out)) \<union> {cnt1 ..< getMaxMeasures p}"
      by blast+
    from mono "1.prems"(3)
    have "dom (fs(cnt \<mapsto> content out)) \<union> {cnt1 ..< getMaxMeasures p}
            \<subseteq> dom fs \<union> {cnt ..< getMaxMeasures p}"
      by auto
    with ih show ?thesis by (meson subset_trans)
  next
    case False
    with "1.prems"(1) l have "cnt' = cnt1" "fs' = fs(cnt \<mapsto> content out)"
      by (subst (asm) run_files.simps, simp)+
    with False ag "1.prems"(3) show ?thesis by auto
  qed
qed

section \<open>Resets\<close>

lemma resets_append: "resets (xs @ ys) = resets xs + resets ys"
  by (simp add: resets_def)

lemma resets_send_param: "resets (send_param param) = 0"
  by (simp add: resets_def send_param_def)

lemma run_thread_resets: "run_thread th s = Some s' \<Longrightarrow> resets (trace s') = resets (trace s)"
proof (induction th arbitrary: s)
  case Nil
  then show ?case by simp
next
  case (Cons param ps)
  show ?case
  proof (cases "expectInput s")
    case True
    with Cons.prems
    have "run_thread ps (s\<lparr>expectInput := False, trace := trace s @ send_param param\<rparr>) = Some s'"
      by simp
    from Cons.IH [OF this] show ?thesis by (simp add: resets_append resets_send_param)
  next
    case False
    with Cons.prems show ?thesis by (simp split: if_splits)
  qed
qed

lemma thread_turn_resets:
  "thread_turn s th = (s', th') \<Longrightarrow> resets (trace s') = resets (trace s)"
  by (cases th) (auto simp: resets_append resets_send_param split: if_splits)

lemma join_input_resets: "join_input s = Inr s' \<Longrightarrow> resets (trace s') = resets (trace s)"
  by (auto simp: join_input_def split: option.splits dest!: run_thread_resets)

lemma on_marker_resets:
  assumes "on_marker p ev s = Inr s1"
  shows "resets (trace s1) = resets (trace s)"
proof (cases ev)
  case None
  with assms show ?thesis by (simp add: on_marker_def)
next
  case (Some a)
  with assms show ?thesis
    by (cases a)
       (auto simp: on_marker_def close_output_def Let_def
             split: sum.splits if_splits dest!: join_input_resets)
qed

lemma do_tick_resets:
  assumes "do_tick m p s t = Inr s'"
  shows "resets (trace s') = resets (trace s)"
proof (cases t)
  case (Rx c)
  with assms have "step m p s c = Inr s'" by (simp add: do_tick_def)
  then obtain s1 where o: "on_marker p (marker_at m (lastChar s) c) s = Inr s1"
    and s': "s' = after_marker m c s1" by (rule step_obtain)
  from on_marker_resets [OF o] s' show ?thesis by (simp add: after_marker_fields)
next
  case (Inj k)
  with assms show ?thesis
    by (cases k)
       (auto simp: do_tick_def inj_turn_def split: option.splits prod.splits
             dest!: thread_turn_resets)
qed

lemma loop_chunk_resets:
  "loop_chunk m p s ts = Inr s' \<Longrightarrow> resets (trace s') = resets (trace s)"
proof (induction ts arbitrary: s)
  case Nil
  then show ?case by simp
next
  case (Cons t ts)
  show ?case
  proof (cases "interrupt s")
    case True
    with Cons.prems show ?thesis by simp
  next
    case False
    with Cons.prems obtain s1
      where t: "do_tick m p s t = Inr s1" and r: "loop_chunk m p s1 ts = Inr s'"
      by (auto split: sum.splits)
    from Cons.IH [OF r] do_tick_resets [OF t] show ?thesis by simp
  qed
qed

lemma loop_chunks_resets:
  "loop_chunks m p s chs = Inr (s', rest) \<Longrightarrow> resets (trace s') = resets (trace s)"
proof (induction chs arbitrary: s)
  case Nil
  then show ?case by simp
next
  case (Cons ch chs)
  from Cons.prems obtain s1 where s1: "loop_chunk m p s ch = Inr s1"
    by (auto split: sum.splits)
  note r1 = loop_chunk_resets [OF s1]
  show ?case
  proof (cases "interrupt s1")
    case True
    with Cons.prems s1 r1 show ?thesis by simp
  next
    case False
    with Cons.prems s1 have "loop_chunks m p s1 chs = Inr (s', rest)" by simp
    from Cons.IH [OF this] r1 show ?thesis by simp
  qed
qed

lemma loop_resets:
  assumes "loop m p (reset p r) out cnt chs = Inr (again, r', out', cnt', rest)"
  shows "resets (r_trace r') = Suc (resets (r_trace r))"
proof -
  from assms obtain s' where
    lc: "loop_chunks m p (loop_entry (r_expectInput (reset p r)) (r_trace (reset p r)) out cnt) chs
         = Inr (s', rest)"
    and eq: "r_trace r' = trace s'"
    by (auto simp: loop_def split: sum.splits)
  from loop_chunks_resets [OF lc] eq show ?thesis
    by (simp add: loop_entry_def reset_def resets_def)
qed

lemma run_stream_resets:
  "run_stream m p r out cnt chs = Inr (r', out', cnt') \<Longrightarrow>
   Suc (resets (r_trace r)) \<le> resets (r_trace r')"
proof (induction m p r out cnt chs rule: run_stream.induct)
  case (1 m p r out cnt chs)
  from "1.prems" obtain again r1 out1 cnt1 rest
    where l: "loop m p (reset p r) out cnt chs = Inr (again, r1, out1, cnt1, rest)"
    by (subst (asm) run_stream.simps) (auto split: sum.splits)
  note one = loop_resets [OF l]
  show ?case
  proof (cases "again \<and> cnt1 = 0")
    case True
    with "1.prems" l have "run_stream m p r1 out1 cnt1 rest = Inr (r', out', cnt')"
      by (subst (asm) run_stream.simps) simp
    from "1.IH" [OF l refl refl refl refl True this] one show ?thesis by simp
  next
    case False
    with "1.prems" l have "r' = r1" by (subst (asm) run_stream.simps) auto
    with one show ?thesis by simp
  qed
qed

lemma run_stream_counted:
  "run_stream m p r out cnt chs = Inr (r', out', cnt') \<Longrightarrow> 0 \<le> cnt \<Longrightarrow> 1 \<le> cnt'"
proof (induction m p r out cnt chs rule: run_stream.induct)
  case (1 m p r out cnt chs)
  from "1.prems"(1) obtain again r1 out1 cnt1 rest
    where l: "loop m p (reset p r) out cnt chs = Inr (again, r1, out1, cnt1, rest)"
    by (subst (asm) run_stream.simps) (auto split: sum.splits)
  note sr = loop_stop_rule [OF l]
  show ?case
  proof (cases "again \<and> cnt1 = 0")
    case True
    with "1.prems"(1) l have "run_stream m p r1 out1 cnt1 rest = Inr (r', out', cnt')"
      by (subst (asm) run_stream.simps) simp
    from "1.IH" [OF l refl refl refl refl True this] True show ?thesis by simp
  next
    case False
    with "1.prems"(1) l have "cnt' = cnt1" by (subst (asm) run_stream.simps) auto
    with False sr "1.prems"(2) show ?thesis by auto
  qed
qed

section \<open>The multi-round driver\<close>

text \<open>
  C6, as the claim states it: with a maximum of 3 the driver loop stops right after the
  third END and no fourth capture begins. In the session below a fourth START and a
  fourth END follow the third END in the same pass; the count ends at 4.
\<close>

theorem fourth_capture_counterexample:
  "final_count (run test_macros test_parser test_runner four_captures) = Some 4"
  by (simp add: final_count_def run_def four_captures_def test_defs scanner_defs loop_def
      reset_def run_files.simps)

text \<open>
  C6, amended: with a maximum of 3, a pass entered with a count below 3 returns "stop"
  exactly when the count has reached 3 by the time the pass ends (at FINISHED or PANIC).
  When such a pass ends with a count of 3 or more, the driver returns at once with the
  state of that pass: one reset was made for the pass and none follows. When it ends with
  a count below 3, the driver goes on with the next round on what is left of the stream;
  when the pass never returns, neither does the driver. So the driver does not stop
  before the third END (it returns only with a count of at least 3) and only the capture
  files 0, 1 and 2 are opened. What the scanner reads between the third END and the end
  of that pass is still handled.
\<close>

theorem driver_stops_after_the_pass_of_the_third_END:
  assumes mx: "getMaxMeasures p = 3"
  shows "(\<forall>r0 out cnt chs0 again r1 out1 cnt1 rest.
            loop m p r0 out cnt chs0 = Inr (again, r1, out1, cnt1, rest) \<longrightarrow> cnt < 3 \<longrightarrow>
            (again \<longleftrightarrow> cnt1 < 3)) \<and>
         (\<forall>r fs cnt chs again r1 out1 cnt1 rest.
            loop m p (reset p r) new_file cnt chs = Inr (again, r1, out1, cnt1, rest) \<longrightarrow> cnt < 3 \<longrightarrow>
            (3 \<le> cnt1 \<longrightarrow>
               run_files m p r fs cnt chs = Inr (r1, fs(cnt \<mapsto> content out1), cnt1) \<and>
               resets (r_trace r1) = Suc (resets (r_trace r))) \<and>
            (cnt1 < 3 \<longrightarrow>
               run_files m p r fs cnt chs = run_files m p r1 (fs(cnt \<mapsto> content out1)) cnt1 rest)) \<and>
         (\<forall>r fs cnt chs h.
            loop m p (reset p r) new_file cnt chs = Inl h \<longrightarrow> run_files m p r fs cnt chs = Inl h) \<and>
         (\<forall>r chs r' fs' cnt'.
            run m p r chs = Inr (r', fs', cnt') \<longrightarrow> 3 \<le> cnt' \<and> dom fs' \<subseteq> {0, 1, 2})"
proof -
  have pass: "\<forall>r0 out cnt chs0 again r1 out1 cnt1 rest.
            loop m p r0 out cnt chs0 = Inr (again, r1, out1, cnt1, rest) \<longrightarrow> cnt < 3 \<longrightarrow>
            (again \<longleftrightarrow> cnt1 < 3)"
    using mx by (auto dest!: loop_stop_rule)
  have round: "(3 \<le> cnt1 \<longrightarrow>
               run_files m p r fs cnt chs = Inr (r1, fs(cnt \<mapsto> content out1), cnt1) \<and>
               resets (r_trace r1) = Suc (resets (r_trace r))) \<and>
            (cnt1 < 3 \<longrightarrow>
               run_files m p r fs cnt chs = run_files m p r1 (fs(cnt \<mapsto> content out1)) cnt1 rest)"
    if l: "loop m p (reset p r) new_file cnt chs = Inr (again, r1, out1, cnt1, rest)"
      and c: "cnt < 3" for r fs cnt chs again r1 out1 cnt1 rest
  proof -
    from pass l c have ag: "again \<longleftrightarrow> cnt1 < 3" by blast
    have "run_files m p r fs cnt chs = Inr (r1, fs(cnt \<mapsto> content out1), cnt1)" if "3 \<le> cnt1"
      using that l ag by (subst run_files.simps) simp
    moreover have "run_files m p r fs cnt chs
                     = run_files m p r1 (fs(cnt \<mapsto> content out1)) cnt1 rest" if "cnt1 < 3"
      using that l ag by (subst run_files.simps) simp
    ultimately show ?thesis using loop_resets [OF l] by blast
  qed
  have hang: "\<forall>r fs cnt chs h.
            loop m p (reset p r) new_file cnt chs = Inl h \<longrightarrow> run_files m p r fs cnt chs = Inl h"
    by (intro allI impI) (subst run_files.simps, simp)
  have ret: "\<forall>r chs r' fs' cnt'.
            run m p r chs = Inr (r', fs', cnt') \<longrightarrow> 3 \<le> cnt' \<and> dom fs' \<subseteq> {0, 1, 2}"
  proof (intro allI impI)
    fix r chs r' fs' cnt'
    assume "run m p r chs = Inr (r', fs', cnt')"
    then have "run_files m p r Map.empty 0 chs = Inr (r', fs', cnt')" by (simp add: run_def)
    from run_files_bound [OF this] mx
    have "3 \<le> cnt'" and "dom fs' \<subseteq> {0 ..< 3}" by simp_all
    moreover have "{0 ..< 3} = {0, 1, 2 :: int}" by auto
    ultimately show "3 \<le> cnt' \<and> dom fs' \<subseteq> {0, 1, 2}" by simp
  qed
  have round': "\<forall>r fs cnt chs again r1 out1 cnt1 rest.
            loop m p (reset p r) new_file cnt chs = Inr (again, r1, out1, cnt1, rest) \<longrightarrow> cnt < 3 \<longrightarrow>
            (3 \<le> cnt1 \<longrightarrow>
               run_files m p r fs cnt chs = Inr (r1, fs(cnt \<mapsto> content out1), cnt1) \<and>
               resets (r_trace r1) = Suc (resets (r_trace r))) \<and>
            (cnt1 < 3 \<longrightarrow>
               run_files m p r fs cnt chs = run_files m p r1 (fs(cnt \<mapsto> content out1)) cnt1 rest)"
    by (intro allI impI) (rule round; assumption)
  show ?thesis by (intro conjI pass round' hang ret)
qed

theorem driver_stops_after_the_pass_of_the_third_END_witness:
  "(\<exists>r' fs'. run test_macros test_parser test_runner two_passes = Inr (r', fs', 3) \<and>
      dom fs' \<subseteq> {0, 1, 2}) \<and>
   (\<exists>r1 (out1 :: sink). run_files test_macros test_parser test_runner Map.empty 0 four_captures
      = Inr (r1, [0 \<mapsto> content out1], 4) \<and> resets (r_trace r1) = 1)"
proof -
  have mx: "getMaxMeasures test_parser = 3" by (simp add: test_parser_def)
  note dr = driver_stops_after_the_pass_of_the_third_END [OF mx, of test_macros]
  note stop = dr [THEN conjunct2, THEN conjunct1, rule_format]
  note ret = dr [THEN conjunct2, THEN conjunct2, THEN conjunct2, rule_format]
  have "\<exists>r' fs'. run test_macros test_parser test_runner two_passes = Inr (r', fs', 3)"
    by (simp add: run_def two_passes_def test_defs scanner_defs loop_def reset_def run_files.simps)
  then obtain r' fs' where
    run: "run test_macros test_parser test_runner two_passes = Inr (r', fs', 3)"
    by blast
  from ret [OF run] have a: "dom fs' \<subseteq> {0, 1, 2}" by simp
  have "\<exists>r1 out1 rest. loop test_macros test_parser (reset test_parser test_runner) new_file 0
          four_captures = Inr (False, r1, out1, 4, rest)"
    by (simp add: four_captures_def test_defs scanner_defs loop_def reset_def)
  then obtain r1 out1 rest where l:
    "loop test_macros test_parser (reset test_parser test_runner) new_file 0
          four_captures = Inr (False, r1, out1, 4, rest)"
    by blast
  have "(0::int) < 3" and "(3::int) \<le> 4" by simp_all
  from stop [OF l this(1), THEN conjunct1, rule_format, OF this(2), of Map.empty]
  have b: "run_files test_macros test_parser test_runner Map.empty 0 four_captures
      = Inr (r1, [0 \<mapsto> content out1], 4) \<and> resets (r_trace r1) = 1"
    by (simp add: test_runner_def resets_def)
  have A: "\<exists>r' fs'. run test_macros test_parser test_runner two_passes
      = Inr (r', fs', 3) \<and> dom fs' \<subseteq> {0, 1, 2}"
    by (rule exI [of _ r'], rule exI [of _ fs'], rule conjI [OF run a])
  have B: "\<exists>r1 (out1 :: sink). run_files test_macros test_parser test_runner Map.empty 0 four_captures
      = Inr (r1, [0 \<mapsto> content out1], 4) \<and> resets (r_trace r1) = 1"
    by (rule exI [of _ r1], rule exI [of _ out1], rule b)
  from A B show ?thesis by (rule conjI)
qed

section \<open>Single-shot mode\<close>

text \<open>
  C7, as the claim states it: exactly one reset-and-scan round is executed, also when
  the round ends by PANIC without an END. In the session below the first round ends by
  PANIC, and a second reset and pass follow.
\<close>

theorem single_shot_second_round_counterexample:
  "rounds_run
     (run_ostream test_macros single_shot_parser test_runner new_ostringstream panic_then_capture)
   = Some 2"
  by (simp add: rounds_run_def run_ostream_def panic_then_capture_def single_shot_parser_def
      test_defs scanner_defs loop_def reset_def run_stream.simps resets_def)

text \<open>
  C7, amended: single-shot mode repeats reset-and-scan rounds while the count is 0 and
  the pass says "go on". When the first round ends with a count other than 0, whatever
  the pass says, the session returns at once with the runner, sink and count of that
  round: exactly one reset was made. When it ends (by FINISHED or PANIC) with the count
  at 0, the pass says "go on" and the session is the session on what is left of the
  stream, with a second reset. It returns only with a count of at least 1, and when the
  first pass never returns, neither does the session.
\<close>

theorem single_shot_repeats_until_an_END:
  assumes first: "loop m p (reset p r) out 0 chs = Inr (again, r1, out1, cnt1, rest)"
  shows "(cnt1 \<noteq> 0 \<longrightarrow>
            run_ostream m p r out chs = Inr (r1, out1, cnt1) \<and>
            resets (r_trace r1) = resets (r_trace r) + 1) \<and>
         (cnt1 = 0 \<longrightarrow>
            again \<and> run_ostream m p r out chs = run_ostream m p r1 out1 rest \<and>
            resets (r_trace r1) = resets (r_trace r) + 1 \<and>
            (\<forall>r' out' cnt'. run_ostream m p r1 out1 rest = Inr (r', out', cnt') \<longrightarrow>
               resets (r_trace r) + 2 \<le> resets (r_trace r'))) \<and>
         (\<forall>r' out' cnt'. run_ostream m p r out chs = Inr (r', out', cnt') \<longrightarrow> 1 \<le> cnt') \<and>
         (\<forall>r0 out0 chs0 h. loop m p (reset p r0) out0 0 chs0 = Inl h \<longrightarrow>
            run_ostream m p r0 out0 chs0 = Inl h)"
proof -
  note sr = loop_stop_rule [OF first]
  note one = loop_resets [OF first]
  have a: "run_ostream m p r out chs = Inr (r1, out1, cnt1) \<and>
            resets (r_trace r1) = resets (r_trace r) + 1" if "cnt1 \<noteq> 0"
    unfolding run_ostream_def using that first one by (subst run_stream.simps) simp
  have b: "again \<and> run_ostream m p r out chs = run_ostream m p r1 out1 rest \<and>
            resets (r_trace r1) = resets (r_trace r) + 1 \<and>
            (\<forall>r' out' cnt'. run_ostream m p r1 out1 rest = Inr (r', out', cnt') \<longrightarrow>
               resets (r_trace r) + 2 \<le> resets (r_trace r'))" if z: "cnt1 = 0"
  proof -
    from z sr have ag: again by simp
    have eq: "run_ostream m p r out chs = run_ostream m p r1 out1 rest"
      unfolding run_ostream_def using first ag z
      by (subst run_stream.simps) simp
    have "\<forall>r' out' cnt'. run_ostream m p r1 out1 rest = Inr (r', out', cnt') \<longrightarrow>
               resets (r_trace r) + 2 \<le> resets (r_trace r')"
      using one by (auto simp: run_ostream_def dest!: run_stream_resets)
    with ag eq one show ?thesis by simp
  qed
  have c: "\<forall>r' out' cnt'. run_ostream m p r out chs = Inr (r', out', cnt') \<longrightarrow> 1 \<le> cnt'"
    by (auto simp: run_ostream_def dest!: run_stream_counted)
  have d: "\<forall>r0 out0 chs0 h. loop m p (reset p r0) out0 0 chs0 = Inl h \<longrightarrow>
            run_ostream m p r0 out0 chs0 = Inl h"
    unfolding run_ostream_def by (intro allI impI) (subst run_stream.simps, simp)
  show ?thesis
  proof (intro conjI impI)
    assume "cnt1 \<noteq> 0"
    from a [OF this] show "run_ostream m p r out chs = Inr (r1, out1, cnt1)"
      and "resets (r_trace r1) = resets (r_trace r) + 1" by simp_all
  next
    assume z: "cnt1 = 0"
    from b [OF z] show again and "run_ostream m p r out chs = run_ostream m p r1 out1 rest"
      and "resets (r_trace r1) = resets (r_trace r) + 1"
      and "\<forall>r' out' cnt'. run_ostream m p r1 out1 rest = Inr (r', out', cnt') \<longrightarrow>
               resets (r_trace r) + 2 \<le> resets (r_trace r')" by simp_all
  next
    show "\<forall>r' out' cnt'. run_ostream m p r out chs = Inr (r', out', cnt') \<longrightarrow> 1 \<le> cnt'"
      by (rule c)
  next
    show "\<forall>r0 out0 chs0 h. loop m p (reset p r0) out0 0 chs0 = Inl h \<longrightarrow>
            run_ostream m p r0 out0 chs0 = Inl h" by (rule d)
  qed
qed

theorem single_shot_repeats_until_an_END_witness:
  "(\<exists>r1 out1. run_ostream test_macros test_parser test_runner new_ostringstream two_captures
       = Inr (r1, out1, 2) \<and> resets (r_trace r1) = 1) \<and>
   (\<exists>r' out'. run_ostream test_macros single_shot_parser test_runner new_ostringstream
       panic_then_capture = Inr (r', out', 1) \<and> 2 \<le> resets (r_trace r'))"
proof -
  have "\<exists>r1 out1 rest. loop test_macros test_parser (reset test_parser test_runner)
          new_ostringstream 0 two_captures = Inr (True, r1, out1, 2, rest)"
    by (simp add: two_captures_def test_defs scanner_defs loop_def reset_def)
  then obtain r1 out1 rest where f1:
    "loop test_macros test_parser (reset test_parser test_runner)
          new_ostringstream 0 two_captures = Inr (True, r1, out1, 2, rest)"
    by blast
  have "(2::int) \<noteq> 0" by simp
  from single_shot_repeats_until_an_END [OF f1, THEN conjunct1, rule_format, OF this]
  have a: "run_ostream test_macros test_parser test_runner new_ostringstream two_captures
       = Inr (r1, out1, 2) \<and> resets (r_trace r1) = 1"
    by (simp add: test_runner_def resets_def)
  have "\<exists>r2 out2 rest2. loop test_macros single_shot_parser (reset single_shot_parser test_runner)
          new_ostringstream 0 panic_then_capture = Inr (True, r2, out2, 0, rest2)"
    by (simp add: panic_then_capture_def single_shot_parser_def test_defs
        scanner_defs loop_def reset_def)
  then obtain r2 out2 rest2 where f2:
    "loop test_macros single_shot_parser (reset single_shot_parser test_runner)
          new_ostringstream 0 panic_then_capture = Inr (True, r2, out2, 0, rest2)"
    by blast
  have "\<exists>r' out'. run_ostream test_macros single_shot_parser test_runner new_ostringstream
          panic_then_capture = Inr (r', out', 1)"
    by (simp add: run_ostream_def panic_then_capture_def single_shot_parser_def test_defs
        scanner_defs loop_def reset_def run_stream.simps)
  then obtain r' out' where run:
    "run_ostream test_macros single_shot_parser test_runner new_ostringstream
          panic_then_capture = Inr (r', out', 1)"
    by blast
  note second = single_shot_repeats_until_an_END [OF f2, THEN conjunct2, THEN conjunct1, rule_format, OF refl]
  from second have eq: "run_ostream test_macros single_shot_parser test_runner new_ostringstream
          panic_then_capture = run_ostream test_macros single_shot_parser r2 out2 rest2"
    by blast
  from second have "\<forall>r' out' cnt'. run_ostream test_macros single_shot_parser r2 out2 rest2
          = Inr (r', out', cnt') \<longrightarrow> resets (r_trace test_runner) + 2 \<le> resets (r_trace r')"
    by blast
  from this [rule_format, of r' out' 1] eq run
  have "2 \<le> resets (r_trace r')" by (simp add: test_runner_def resets_def)
  then have B: "\<exists>r' out'. run_ostream test_macros single_shot_parser test_runner
       new_ostringstream panic_then_capture = Inr (r', out', 1) \<and> 2 \<le> resets (r_trace r')"
    by (intro exI [of _ r'], intro exI [of _ out'], intro conjI run)
  have A: "\<exists>r1 out1. run_ostream test_macros test_parser test_runner new_ostringstream
       two_captures = Inr (r1, out1, 2) \<and> resets (r_trace r1) = 1"
    by (rule exI [of _ r1], rule exI [of _ out1], rule a)
  from A B show ?thesis by (rule conjI)
qed

section \<open>Key derivation\<close>

lemma for_shift_stop: "\<not> nextLine k \<Longrightarrow> for_shift ks b sh k = Inr k"
  by (cases sh) simp_all

lemma while_nextLine_stop: "\<not> nextLine k \<Longrightarrow> while_nextLine ks bs cf k = Inr k"
  by (cases bs) simp_all

lemma for_shift_miss:
  "nextLine k \<Longrightarrow> nextBit k = Some q \<Longrightarrow> bit_count k \<noteq> q \<Longrightarrow>
   for_shift ks b (Suc s) k = for_shift ks b s (k\<lparr>bit_count := bit_count k + 1\<rparr>)"
  by simp

lemma for_shift_hit_last:
  "nextLine k \<Longrightarrow> nextBit k = Some q \<Longrightarrow> bit_count k = q \<Longrightarrow> index k < ks \<Longrightarrow>
   pos_file k = [] \<Longrightarrow>
   for_shift ks b (Suc s) k =
     Inr (k\<lparr>result := (result k)[index k := Some ((drop_bit s b AND 1) + 48)],
            index := Suc (index k), nextLine := False, bit_count := bit_count k + 1\<rparr>)"
  by (simp add: read_pos_def for_shift_stop)

lemma for_shift_hit_more:
  "nextLine k \<Longrightarrow> nextBit k = Some q \<Longrightarrow> bit_count k = q \<Longrightarrow> index k < ks \<Longrightarrow>
   pos_file k = q' # qs' \<Longrightarrow>
   for_shift ks b (Suc s) k =
     for_shift ks b s
       (k\<lparr>result := (result k)[index k := Some ((drop_bit s b AND 1) + 48)],
          index := Suc (index k), nextBit := Some q', pos_file := qs',
          bit_count := bit_count k + 1\<rparr>)"
  by (simp add: read_pos_def)

lemma take_Suc_update: "i < length xs \<Longrightarrow> take (Suc i) (xs[i := a]) = take i xs @ [a]"
  by (simp add: take_Suc_conv_app_nth)

lemma matched_later: "\<not> q < E \<Longrightarrow> matched E (q # qs) = [] \<and> pending E (q # qs) = q # qs"
  by (simp add: matched_def pending_def)

lemma matched_now:
  "q < E \<Longrightarrow> matched E (q # qs) = q # matched E qs \<and> pending E (q # qs) = pending E qs"
  by (simp add: matched_def pending_def)

lemma matched_pending: "matched E P @ pending E P = P"
  by (simp add: matched_def pending_def)

lemma for_shift_spec:
  assumes "holds k c P i res" and "sorted_wrt (<) P" and "\<forall>x \<in> set P. c \<le> x"
    and "i + length P \<le> ks" and "length res = ks"
  shows "\<exists>k'. for_shift ks b sh k = Inr k' \<and> byte_done k' b (c + int sh) P i res"
  using assms
proof (induction sh arbitrary: k c P i res)
  case 0
  from "0.prems"(1) obtain q qs where P: "P = q # qs" by (cases P) (simp_all add: holds_def)
  with "0.prems"(3) have "\<not> q < c" by simp
  from matched_later [OF this, of qs] P
  have tw: "matched c P = []" "pending c P = P" by simp_all
  from "0.prems"(1) have "result k = res" by (simp add: holds_def)
  with tw "0.prems"(1) P have "byte_done k b c P i res" by (simp add: byte_done_def)
  then show ?case by simp
next
  case (Suc s)
  define E where "E = c + int (Suc s)"
  from Suc.prems(1) obtain q qs where P: "P = q # qs" by (cases P) (simp_all add: holds_def)
  with Suc.prems(1) have k: "nextLine k" "bit_count k = c" "index k = i" "result k = res"
    "nextBit k = Some q" "pos_file k = qs"
    by (simp_all add: holds_def)
  from P Suc.prems(4,5) have i: "i < ks" "i < length res" by simp_all
  have E: "(c + 1) + int s = E" by (simp add: E_def)
  have goal: "\<exists>k'. for_shift ks b (Suc s) k = Inr k' \<and> byte_done k' b E P i res"
  proof (cases "c = q")
    case False
    with P Suc.prems(2,3) have ge: "\<forall>x \<in> set P. c + 1 \<le> x" by auto
    from False k have unf:
      "for_shift ks b (Suc s) k = for_shift ks b s (k\<lparr>bit_count := bit_count k + 1\<rparr>)"
      by (intro for_shift_miss [of k q]) simp_all
    from k P have h: "holds (k\<lparr>bit_count := bit_count k + 1\<rparr>) (c + 1) P i res"
      by (simp add: holds_def)
    from Suc.IH [OF h Suc.prems(2) ge Suc.prems(4,5)] unf show ?thesis
      by (simp only: E)
  next
    case True
    let ?val = "Some ((drop_bit s b AND 1) + 48) :: byte option"
    have val: "seen b E q = ?val" using True by (simp add: seen_def E_def)
    from True have lt: "q < E" by (simp add: E_def)
    note now = matched_now [OF lt, of qs]
    show ?thesis
    proof (cases qs)
      case Nil
      let ?k' = "k\<lparr>result := (result k)[index k := ?val],
            index := Suc (index k), nextLine := False, bit_count := bit_count k + 1\<rparr>"
      from k True i Nil have unf: "for_shift ks b (Suc s) k = Inr ?k'"
        by (intro for_shift_hit_last [of k q]) simp_all
      from now P Nil have tw: "matched E P = [q]" "pending E P = []"
        by (simp_all add: matched_def pending_def)
      from i have "res[i := ?val] = take i res @ [?val] @ drop (Suc i) res"
        by (simp add: upd_conv_take_nth_drop)
      with tw k val have "byte_done ?k' b E P i res" by (simp add: byte_done_def)
      with unf show ?thesis by blast
    next
      case (Cons q' qs')
      let ?k1 = "k\<lparr>result := (result k)[index k := ?val],
          index := Suc (index k), nextBit := Some q', pos_file := qs',
          bit_count := bit_count k + 1\<rparr>"
      from k True i Cons have unf: "for_shift ks b (Suc s) k = for_shift ks b s ?k1"
        by (intro for_shift_hit_more [of k q]) simp_all
      from k Cons have h: "holds ?k1 (c + 1) qs (Suc i) (res[i := ?val])"
        by (simp add: holds_def)
      from P Suc.prems(2) have srt: "sorted_wrt (<) qs" by simp
      from P Suc.prems(2) True have ge: "\<forall>x \<in> set qs. c + 1 \<le> x" by auto
      from P Suc.prems(4) have len: "Suc i + length qs \<le> ks" by simp
      from Suc.prems(5) have len2: "length (res[i := ?val]) = ks" by simp
      from Suc.IH [OF h srt ge len len2] obtain k' where
        r: "for_shift ks b s ?k1 = Inr k'"
        and bd: "byte_done k' b E qs (Suc i) (res[i := ?val])"
        by (auto simp only: E)
      from i(2) have t1: "take (Suc i) (res[i := ?val]) = take i res @ [?val]"
        by (rule take_Suc_update)
      have t2: "drop (Suc i + length (matched E qs)) (res[i := ?val])
                = drop (Suc i + length (matched E qs)) res"
        by simp
      from now P have tw: "matched E P = q # matched E qs" "pending E P = pending E qs"
        by simp_all
      from bd t1 t2 val have "byte_done k' b E P i res"
        by (auto simp add: byte_done_def tw split: if_splits)
      with unf r show ?thesis by simp
    qed
  qed
  then show ?case by (simp only: E_def)
qed


lemma pending_sorted: "sorted_wrt (<) P \<Longrightarrow> sorted_wrt (<) (pending E P)"
  by (simp add: pending_def dropWhile_eq_drop sorted_wrt_drop)

lemma pending_ge: "sorted_wrt (<) P \<Longrightarrow> \<forall>x \<in> set (pending E P). E \<le> x"
  by (induction P) (auto simp: pending_def)

lemma pending_subset: "set (pending E P) \<subseteq> set P"
  by (auto simp: pending_def dest: set_dropWhileD)

lemma matched_lt: "\<forall>x \<in> set (matched E P). x < E"
  by (auto simp: matched_def dest: set_takeWhileD)

lemma matched_subset: "set (matched E P) \<subseteq> set P"
  by (auto simp: matched_def dest: set_takeWhileD)

lemma seen_selected:
  assumes "c \<le> x" and "x < c + 8"
  shows "seen b (c + 8) x = Some (selected_bit (b # bs) (nat (x - c)))"
proof -
  from assms have "nat (x - c) < 8" by simp
  then have "nat (x - c) div 8 = 0" "nat (x - c) mod 8 = nat (x - c)" by simp_all
  moreover from assms have "nat (c + 8 - 1 - x) = 7 - nat (x - c)" by simp
  ultimately show ?thesis by (simp add: seen_def selected_bit_def)
qed

lemma selected_bit_Cons: "8 \<le> d \<Longrightarrow> selected_bit (b # bs) d = selected_bit bs (d - 8)"
proof -
  assume "8 \<le> d"
  then obtain e where d: "d = e + 8" by (metis le_add_diff_inverse2)
  have "(e + 8) div 8 = Suc (e div 8)" "(e + 8) mod 8 = e mod 8" by simp_all
  with d show ?thesis by (simp add: selected_bit_def)
qed

lemma while_nextLine_spec:
  assumes "holds k c P i res" and "sorted_wrt (<) P"
    and "\<forall>x \<in> set P. c \<le> x \<and> x < c + 8 * int (length bs)"
    and "i + length P \<le> ks" and "length res = ks"
  shows "\<exists>k'. while_nextLine ks bs True k = Inr k' \<and>
           result k' = take i res @ map (\<lambda>x. Some (selected_bit bs (nat (x - c)))) P
                       @ drop (i + length P) res"
  using assms
proof (induction bs arbitrary: k c P i res)
  case Nil
  from Nil.prems(1) obtain q qs where "P = q # qs" by (cases P) (simp_all add: holds_def)
  with Nil.prems(3) have False by auto
  then show ?case ..
next
  case (Cons b bs)
  define E where "E = c + 8"
  define M where "M = matched E P"
  define R where "R = pending E P"
  have P: "P = M @ R" by (simp add: M_def R_def matched_pending)
  from Cons.prems(1) have nl: "nextLine k" by (simp add: holds_def)
  from Cons.prems(3) have ge: "\<forall>x \<in> set P. c \<le> x" by simp
  from for_shift_spec [OF Cons.prems(1,2) ge Cons.prems(4,5), of b 8]
  obtain k1 where f: "for_shift ks b 8 k = Inr k1" and bd: "byte_done k1 b E P i res"
    by (auto simp: E_def)
  from bd have r1: "result k1 = take i res @ map (seen b E) M @ drop (i + length M) res"
    by (simp add: byte_done_def M_def)
  have mapM: "map (seen b E) M = map (\<lambda>x. Some (selected_bit (b # bs) (nat (x - c)))) M"
  proof (rule map_cong [OF refl])
    fix x assume "x \<in> set M"
    with matched_lt [of E P] matched_subset [of E P] ge have "c \<le> x" "x < c + 8"
      by (auto simp: M_def E_def)
    then show "seen b E x = Some (selected_bit (b # bs) (nat (x - c)))"
      unfolding E_def by (rule seen_selected)
  qed
  from nl f have unf: "while_nextLine ks (b # bs) True k = while_nextLine ks bs True k1"
    by simp
  show ?case
  proof (cases "R = []")
    case True
    with bd have "\<not> nextLine k1" by (simp add: byte_done_def R_def)
    then have "while_nextLine ks bs True k1 = Inr k1" by (rule while_nextLine_stop)
    with unf r1 mapM P True show ?thesis by simp
  next
    case False
    with bd r1 have h: "holds k1 E R (i + length M) (result k1)"
      by (simp add: byte_done_def R_def M_def)
    have srt: "sorted_wrt (<) R" unfolding R_def by (rule pending_sorted [OF Cons.prems(2)])
    have rng: "\<forall>x \<in> set R. E \<le> x \<and> x < E + 8 * int (length bs)"
    proof
      fix x assume x: "x \<in> set R"
      with pending_ge [OF Cons.prems(2), of E] have "E \<le> x" by (simp add: R_def)
      moreover from x pending_subset [of E P] have "x \<in> set P" by (auto simp: R_def)
      with Cons.prems(3) have "x < c + 8 * int (length (b # bs))" by blast
      then have "x < E + 8 * int (length bs)" by (simp add: E_def)
      ultimately show "E \<le> x \<and> x < E + 8 * int (length bs)" by simp
    qed
    from P Cons.prems(4) have len: "(i + length M) + length R \<le> ks" by simp
    from P Cons.prems(4,5) have iM: "i + length M \<le> length res" by simp
    with r1 Cons.prems(5) have len2: "length (result k1) = ks" by simp
    from Cons.IH [OF h srt rng len len2] obtain k' where
      w: "while_nextLine ks bs True k1 = Inr k'"
      and res': "result k' = take (i + length M) (result k1)
                   @ map (\<lambda>x. Some (selected_bit bs (nat (x - E)))) R
                   @ drop (i + length M + length R) (result k1)"
      by blast
    from iM have il: "i \<le> length res" by simp
    then have lt: "length (take i res @ map (seen b E) M) = i + length M" by simp
    have tk: "take (i + length M) (result k1) = take i res @ map (seen b E) M"
      unfolding r1 using lt by (metis append_assoc append_eq_conv_conj)
    have "drop (i + length M + length R) (result k1)
            = drop (length R) (drop (i + length M) (result k1))"
      by (simp add: add.commute)
    also have "drop (i + length M) (result k1) = drop (i + length M) res"
      unfolding r1 using lt by (metis append_assoc append_eq_conv_conj)
    finally have dr: "drop (i + length M + length R) (result k1) = drop (i + length P) res"
      using P by (simp add: add.commute add.left_commute)
    have mapR: "map (\<lambda>x. Some (selected_bit bs (nat (x - E)))) R
                 = map (\<lambda>x. Some (selected_bit (b # bs) (nat (x - c)))) R"
    proof (rule map_cong [OF refl])
      fix x assume "x \<in> set R"
      with rng have "E \<le> x" by simp
      then have "8 \<le> nat (x - c)" "nat (x - c) - 8 = nat (x - E)" by (simp_all add: E_def)
      with selected_bit_Cons [of "nat (x - c)" b bs]
      show "Some (selected_bit bs (nat (x - E))) = Some (selected_bit (b # bs) (nat (x - c)))"
        by simp
    qed
    from res' tk dr mapM mapR P
    have "result k' = take i res @ map (\<lambda>x. Some (selected_bit (b # bs) (nat (x - c)))) P
                       @ drop (i + length P) res"
      by simp
    with unf w show ?thesis by simp
  qed
qed

lemma while_nextLine_skip:
  "44 \<notin> set pre \<Longrightarrow> nextLine k \<Longrightarrow>
   while_nextLine ks (pre @ 44 # bs) False k = while_nextLine ks bs True k"
  by (induction pre) auto


lemma selected_bit_append:
  "d < 8 * length bs \<Longrightarrow> selected_bit (bs @ cs) d = selected_bit bs d"
  by (simp add: selected_bit_def nth_append)

text \<open>
  C2, as the claim states it: for the capture "xx," 0x41 0x00, the positions 0, 7, 8 and
  key size 3 the key is "101". It is not.
\<close>

theorem gen_key_101_counterexample:
  "gen_key [120, 120, 44, 65, 0] [0, 7, 8] 3 \<noteq> Inr [Some 49, Some 48, Some 49]"
  by code_simp


text \<open>
  C2, amended: the key is "010". Bit 0 is the most significant bit of 0x41, which is 0;
  bit 7 is its least significant bit, 1; bit 8 is the most significant bit of 0x00, 0.
\<close>

theorem gen_key_returns_010:
  "gen_key [120, 120, 44, 65, 0] [0, 7, 8] 3 = Inr [Some 48, Some 49, Some 48]"
  by code_simp


text \<open>
  C3: the scan is claimed to stop when the capture is exhausted, with a short output and
  without reading behind the capture. The loop only ends when the position file is
  exhausted: on an empty capture, on a capture without a comma and on a position behind
  the last bit, \<open>in\<close> is moved behind the terminating NUL and read there.
\<close>

theorem gen_key_reads_past_the_capture:
  "gen_key [] [0] 1 = Inl ReadPastEnd \<and> gen_key [120, 120] [0] 1 = Inl ReadPastEnd \<and>
   gen_key [44, 65] [0, 16] 2 = Inl ReadPastEnd"
  by code_simp


text \<open>
  C4, as the claim states it: a position list whose length differs from the key size is
  rejected with a validation error and the output is never silently short. With two
  positions and key size 3 the function returns a buffer whose last cell was never
  written.
\<close>

theorem gen_key_short_list_counterexample:
  "gen_key [120, 120, 44, 65, 0] [0, 7] 3 = Inr [Some 48, Some 49, None]"
  by code_simp


text \<open>
  C4, amended: \<open>gen_key\<close> validates nothing and has no error result. For a capture with
  a comma and a non-empty, strictly increasing position list of at most \<open>key_size\<close>
  entries, all inside the bits that follow the first comma, it writes the character of
  each position into the buffer, in order and inside the buffer; the cells behind the
  last position stay unwritten, so a list shorter than the key size gives a short key.
\<close>

theorem gen_key_without_validation:
  assumes pre: "44 \<notin> set pre" and srt: "sorted_wrt (<) qs" and ne: "qs \<noteq> []"
    and rng: "\<forall>q \<in> set qs. 0 \<le> q \<and> q < 8 * int (length rest)"
    and len: "length qs \<le> key_size"
  shows "gen_key (pre @ 44 # rest) qs key_size =
           Inr (map (\<lambda>q. Some (selected_bit rest (nat q))) qs
                @ replicate (key_size - length qs) None)"
proof -
  from ne obtain q qs' where qs: "qs = q # qs'" by (cases qs) simp_all
  define k1 where "k1 = \<lparr>pos_file = qs', nextBit = Some q, bit_count = 0, index = 0,
                result = replicate key_size None, nextLine = True\<rparr>"
  have h: "holds k1 0 qs 0 (replicate key_size None)"
    by (simp add: holds_def k1_def qs)
  from rng have rng': "\<forall>x \<in> set qs. 0 \<le> x \<and> x < 0 + 8 * int (length (rest @ [0]))"
    by auto
  from len have len': "0 + length qs \<le> key_size" by simp
  from while_nextLine_spec [OF h srt rng' len'] obtain k' where
    w: "while_nextLine key_size (rest @ [0]) True k1 = Inr k'"
    and r: "result k' = take 0 (replicate key_size None)
              @ map (\<lambda>x. Some (selected_bit (rest @ [0]) (nat (x - 0)))) qs
              @ drop (0 + length qs) (replicate key_size None)"
    by auto
  have m: "map (\<lambda>x. Some (selected_bit (rest @ [0]) (nat (x - 0)))) qs
           = map (\<lambda>q. Some (selected_bit rest (nat q))) qs"
  proof (rule map_cong [OF refl])
    fix x assume "x \<in> set qs"
    with rng have "nat x < 8 * length rest" by auto
    then show "Some (selected_bit (rest @ [0]) (nat (x - 0))) = Some (selected_bit rest (nat x))"
      by (simp add: selected_bit_append)
  qed
  have nl: "nextLine k1" by (simp add: k1_def)
  have "gen_key (pre @ 44 # rest) qs key_size
          = map_sum id result (while_nextLine key_size (pre @ 44 # (rest @ [0])) False k1)"
    by (simp add: gen_key_def read_pos_def qs k1_def)
  also have "\<dots> = map_sum id result (while_nextLine key_size (rest @ [0]) True k1)"
    by (simp only: while_nextLine_skip [OF pre nl])
  finally show ?thesis using w r m by simp
qed

theorem gen_key_without_validation_witness:
  "gen_key [107, 44, 165, 15] [1, 2, 12] 4 = Inr [Some 48, Some 49, Some 49, None]"
proof -
  have "gen_key ([107] @ 44 # [165, 15]) [1, 2, 12] 4 =
           Inr (map (\<lambda>q. Some (selected_bit [165, 15] (nat q))) [1, 2, 12]
                @ replicate (4 - length [1, 2, 12 :: int]) None)"
    by (rule gen_key_without_validation) simp_all
  then show ?thesis by (simp add: selected_bit_def)
qed

end
